theory Spec2Isabelle
  imports Complex_Main "HOL-Library.Char_ord" "HOL-Library.List_Lexorder" "HOL-Library.AList"
begin

section \<open>JavaScript values\<close>

text \<open>
  The engine of \<^verbatim>\<open>src/api/engine.js\<close> receives loosely typed JavaScript values. They
  are modelled by the JSON-like datatype \<open>jsval\<close>. Conventions of the model:
  \<^item> a number is either one of the three non-finite IEEE values or a finite value, and
    finite values are exact rationals: rounding and overflow of finite arithmetic are not
    modelled;
  \<^item> an object is the list of its own enumerable properties in the order of
    \<^verbatim>\<open>Object.entries\<close>; members inherited from \<^verbatim>\<open>Object.prototype\<close> are not modelled,
    so a property that is absent from the list reads as \<^verbatim>\<open>undefined\<close>;
  \<^item> a \<^verbatim>\<open>Map\<close> is an association list in insertion order: \<^verbatim>\<open>set\<close> is
    \<^const>\<open>AList.update\<close> (in place for a present key, appended otherwise) and
    \<^verbatim>\<open>get\<close> is \<^const>\<open>map_of\<close>;
  \<^item> strings are compared as lists of code units (\<^verbatim>\<open><\<close> is the lexicographic order);
  \<^item> the numeric value of a string, \<^verbatim>\<open>Number(s)\<close>, is a parameter \<open>S\<close> of the model.
\<close>

datatype jsnum = Fin rat | NaN | PosInf | NegInf

datatype jsval =
    JUndefined
  | JNull
  | JBool bool
  | JNum jsnum
  | JStr string
  | JArr "jsval list"
  | JObj "(string \<times> jsval) list"

text \<open>
  \<open>TypeError\<close> is the exception of reading a property of \<^verbatim>\<open>null\<close>. \<open>NonStringId\<close> is not
  an exception of the program: it marks an input from which the engine would keep a
  variable id or an edge endpoint that is not a string (it would use the value as a
  \<^verbatim>\<open>Map\<close> key, compared by identity, and coerce it to a string elsewhere). Such inputs are
  outside the model, and no statement below is about them.
\<close>

datatype error = TypeError | NonStringId

fun isFinite :: "jsnum \<Rightarrow> bool" where
  "isFinite (Fin q) = True"
| "isFinite _ = False"

fun truthy :: "jsval \<Rightarrow> bool" where
  "truthy JUndefined = False"
| "truthy JNull = False"
| "truthy (JBool b) = b"
| "truthy (JNum (Fin q)) = (q \<noteq> 0)"
| "truthy (JNum NaN) = False"
| "truthy (JNum PosInf) = True"
| "truthy (JNum NegInf) = True"
| "truthy (JStr s) = (s \<noteq> [])"
| "truthy (JArr xs) = True"
| "truthy (JObj fs) = True"

text \<open>\<^verbatim>\<open>a || b\<close> and \<^verbatim>\<open>a ?? b\<close>.\<close>

definition js_or :: "jsval \<Rightarrow> jsval \<Rightarrow> jsval" where
  "js_or a b = (if truthy a then a else b)"

definition nullish :: "jsval \<Rightarrow> jsval \<Rightarrow> jsval" where
  "nullish a b = (if a = JUndefined \<or> a = JNull then b else a)"

text \<open>A parameter declared with the default value \<^verbatim>\<open>{}\<close>.\<close>

definition default_obj :: "jsval \<Rightarrow> jsval" where
  "default_obj v = (if v = JUndefined then JObj [] else v)"

text \<open>
  \<^verbatim>\<open>x.k\<close> for a receiver that is neither \<^verbatim>\<open>null\<close> nor \<^verbatim>\<open>undefined\<close>; every use below is
  behind a truthiness test of the receiver or behind an explicit \<open>TypeError\<close> branch. None of
  the property names the engine reads is a member of an array, a string, a number or a
  boolean.
\<close>

fun getp :: "jsval \<Rightarrow> string \<Rightarrow> jsval" where
  "getp (JObj fs) k = (case map_of fs k of Some v \<Rightarrow> v | None \<Rightarrow> JUndefined)"
| "getp v k = JUndefined"

text \<open>\<^verbatim>\<open>typeof v === "object"\<close> for a truthy \<open>v\<close>.\<close>

fun is_object :: "jsval \<Rightarrow> bool" where
  "is_object (JArr xs) = True"
| "is_object (JObj fs) = True"
| "is_object v = False"

text \<open>
  \<^verbatim>\<open>Number(v)\<close>. An array is converted through its string: the empty array gives 0, a
  one-element array gives the number of its element's string, a longer one contains a comma
  and gives \<^verbatim>\<open>NaN\<close>.
\<close>

fun Number_of :: "(string \<Rightarrow> jsnum) \<Rightarrow> jsval \<Rightarrow> jsnum" where
  "Number_of S JUndefined = NaN"
| "Number_of S JNull = Fin 0"
| "Number_of S (JBool b) = Fin (if b then 1 else 0)"
| "Number_of S (JNum n) = n"
| "Number_of S (JStr s) = S s"
| "Number_of S (JArr []) = Fin 0"
| "Number_of S (JArr [JUndefined]) = Fin 0"
| "Number_of S (JArr [JNull]) = Fin 0"
| "Number_of S (JArr [JBool b]) = NaN"
| "Number_of S (JArr [JObj fs]) = NaN"
| "Number_of S (JArr [x]) = Number_of S x"
| "Number_of S (JArr (x # y # zs)) = NaN"
| "Number_of S (JObj fs) = NaN"

section \<open>clamp, toNumber\<close>

text \<open>
  \<^verbatim>\<open>clamp(value, min, max)\<close> returns \<^verbatim>\<open>min\<close> for \<^verbatim>\<open>NaN\<close> and
  \<^verbatim>\<open>Math.max(min, Math.min(max, value))\<close> otherwise. The bounds are finite at every call.
\<close>

fun clamp :: "jsnum \<Rightarrow> rat \<Rightarrow> rat \<Rightarrow> rat" where
  "clamp NaN lo hi = lo"
| "clamp (Fin q) lo hi = max lo (min hi q)"
| "clamp PosInf lo hi = max lo hi"
| "clamp NegInf lo hi = lo"

definition toNumber :: "(string \<Rightarrow> jsnum) \<Rightarrow> jsval \<Rightarrow> jsnum \<Rightarrow> jsnum" where
  "toNumber S v fallback = (let parsed = Number_of S v in if isFinite parsed then parsed else fallback)"

definition NORMALIZED_RANGE_min :: rat where
  "NORMALIZED_RANGE_min = 0"

definition NORMALIZED_RANGE_max :: rat where
  "NORMALIZED_RANGE_max = 10"

section \<open>Normalisation of the graph description\<close>

record variable =
  var_id :: string
  var_value :: rat
  var_baseline :: rat

record edge =
  e_from :: string
  e_to :: string
  e_weight :: rat

text \<open>
  \<^verbatim>\<open>forEach\<close> over the raw items: each item pushes nothing or one record; an item outside
  the model stops the traversal.
\<close>

fun collect :: "('a \<Rightarrow> error + 'b list) \<Rightarrow> 'a list \<Rightarrow> error + 'b list" where
  "collect f [] = Inr []"
| "collect f (x # xs) =
     (case f x of
        Inl e \<Rightarrow> Inl e
      | Inr ys \<Rightarrow> (case collect f xs of Inl e \<Rightarrow> Inl e | Inr zs \<Rightarrow> Inr (ys @ zs)))"

text \<open>The finite number a \<^verbatim>\<open>toNumber\<close> call with a finite fallback returns.\<close>

fun fin_val :: "jsnum \<Rightarrow> rat" where
  "fin_val (Fin q) = q"
| "fin_val n = 0"

text \<open>
  \<^verbatim>\<open>toNumber(item.initial ?? item.value ?? item.start ?? 5, 5)\<close> and
  \<^verbatim>\<open>toNumber(item.baseline ?? item.setPoint ?? initial ?? 5, 5)\<close>, both clamped.
\<close>

definition itemInitial :: "(string \<Rightarrow> jsnum) \<Rightarrow> jsval \<Rightarrow> jsnum" where
  "itemInitial S item =
     toNumber S (nullish (nullish (nullish (getp item ''initial'') (getp item ''value''))
                    (getp item ''start'')) (JNum (Fin 5))) (Fin 5)"

definition itemBaseline :: "(string \<Rightarrow> jsnum) \<Rightarrow> jsval \<Rightarrow> jsnum \<Rightarrow> jsnum" where
  "itemBaseline S item initial =
     toNumber S (nullish (nullish (nullish (getp item ''baseline'') (getp item ''setPoint''))
                    (JNum initial)) (JNum (Fin 5))) (Fin 5)"

definition itemVariable :: "(string \<Rightarrow> jsnum) \<Rightarrow> string \<Rightarrow> jsval \<Rightarrow> variable" where
  "itemVariable S i item =
     (let initial = itemInitial S item;
          baseline = itemBaseline S item initial
      in \<lparr>var_id = i, var_value = clamp initial NORMALIZED_RANGE_min NORMALIZED_RANGE_max,
          var_baseline = clamp baseline NORMALIZED_RANGE_min NORMALIZED_RANGE_max\<rparr>)"

text \<open>One element of the array form (lines 22-37).\<close>

definition nodeOfItem :: "(string \<Rightarrow> jsnum) \<Rightarrow> jsval \<Rightarrow> error + variable list" where
  "nodeOfItem S item =
     (if \<not> truthy item then Inr []
      else case item of
        JStr s \<Rightarrow> Inr [\<lparr>var_id = s, var_value = 5, var_baseline = 5\<rparr>]
      | _ \<Rightarrow>
         (let i = js_or (getp item ''id'') (getp item ''name'') in
          if \<not> truthy i then Inr []
          else case i of
            JStr s \<Rightarrow> Inr [itemVariable S s item]
          | _ \<Rightarrow> Inl NonStringId))"

text \<open>One entry of the keyed form (lines 42-56).\<close>

definition nodeOfEntry :: "(string \<Rightarrow> jsnum) \<Rightarrow> string \<times> jsval \<Rightarrow> error + variable list" where
  "nodeOfEntry S entry =
     (case entry of (i, item) \<Rightarrow>
        if i = [] then Inr []
        else if truthy item \<and> is_object item then Inr [itemVariable S i item]
        else
          (let initial = toNumber S item (Fin 5)
           in Inr [\<lparr>var_id = i, var_value = clamp initial NORMALIZED_RANGE_min NORMALIZED_RANGE_max,
                    var_baseline = clamp initial NORMALIZED_RANGE_min NORMALIZED_RANGE_max\<rparr>]))"

definition normalizeVariables :: "(string \<Rightarrow> jsnum) \<Rightarrow> jsval \<Rightarrow> error + variable list" where
  "normalizeVariables S graph0 =
     (let graph = default_obj graph0 in
      if graph = JNull then Inl TypeError
      else
        let rawNodes =
              js_or (js_or (js_or (js_or (getp graph ''variables'') (getp graph ''nodes''))
                       (getp graph ''stocks'')) (getp graph ''vertices'')) graph
        in case rawNodes of
             JArr items \<Rightarrow> collect (nodeOfItem S) items
           | JObj entries \<Rightarrow> collect (nodeOfEntry S) entries
           | _ \<Rightarrow> Inr [])"

definition edgeWeight :: "(string \<Rightarrow> jsnum) \<Rightarrow> jsval \<Rightarrow> rat" where
  "edgeWeight S e =
     fin_val (toNumber S (nullish (nullish (nullish (getp e ''weight'') (getp e ''strength''))
                             (getp e ''value'')) (JNum (Fin 0))) (Fin 0))"

text \<open>An endpoint that is kept: a string, or the input is outside the model.\<close>

fun as_id :: "jsval \<Rightarrow> error + string" where
  "as_id (JStr s) = Inr s"
| "as_id v = Inl NonStringId"

definition mk_edge :: "jsval \<Rightarrow> jsval \<Rightarrow> rat \<Rightarrow> error + edge list" where
  "mk_edge f t w =
     (case as_id f of
        Inl e \<Rightarrow> Inl e
      | Inr a \<Rightarrow> (case as_id t of
                    Inl e \<Rightarrow> Inl e
                  | Inr b \<Rightarrow> Inr [\<lparr>e_from = a, e_to = b, e_weight = w\<rparr>]))"

text \<open>One element of the array form of the edges (lines 68-75).\<close>

definition edgeOfItem :: "(string \<Rightarrow> jsnum) \<Rightarrow> jsval \<Rightarrow> error + edge list" where
  "edgeOfItem S e =
     (if \<not> truthy e then Inr []
      else
        let f = js_or (getp e ''from'') (getp e ''source'');
            t = js_or (getp e ''to'') (getp e ''target'')
        in if \<not> truthy f \<or> \<not> truthy t then Inr []
           else mk_edge f t (edgeWeight S e))"

text \<open>One target of a keyed list of targets (lines 80-85).\<close>

definition edgeOfTarget :: "(string \<Rightarrow> jsnum) \<Rightarrow> string \<Rightarrow> jsval \<Rightarrow> error + edge list" where
  "edgeOfTarget S key target =
     (if \<not> truthy target then Inr []
      else
        let t = (case target of JStr s \<Rightarrow> target
                 | _ \<Rightarrow> js_or (getp target ''to'') (getp target ''target''));
            w = (if is_object target then edgeWeight S target else 1 / 2)
        in mk_edge (JStr key) t w)"

text \<open>One entry of the keyed form of the edges (lines 77-93).\<close>

definition edgeOfEntry :: "(string \<Rightarrow> jsnum) \<Rightarrow> string \<times> jsval \<Rightarrow> error + edge list" where
  "edgeOfEntry S entry =
     (case entry of (key, v) \<Rightarrow>
        if \<not> truthy v then Inr []
        else case v of
          JArr targets \<Rightarrow> collect (edgeOfTarget S key) targets
        | JObj fs \<Rightarrow>
            (let f = js_or (js_or (getp v ''from'') (getp v ''source'')) (JStr key);
                 t = js_or (getp v ''to'') (getp v ''target'')
             in if \<not> truthy t then Inr []
                else mk_edge f t (edgeWeight S v))
        | _ \<Rightarrow> Inr [])"

definition normalizeEdges :: "(string \<Rightarrow> jsnum) \<Rightarrow> jsval \<Rightarrow> error + edge list" where
  "normalizeEdges S graph0 =
     (let graph = default_obj graph0 in
      if graph = JNull then Inl TypeError
      else
        let rawEdges = js_or (js_or (js_or (getp graph ''edges'') (getp graph ''links''))
                         (getp graph ''connections'')) (JArr [])
        in case rawEdges of
             JArr items \<Rightarrow> collect (edgeOfItem S) items
           | JObj entries \<Rightarrow> collect (edgeOfEntry S) entries
           | _ \<Rightarrow> Inr [])"

section \<open>Cycle detection\<close>

datatype loop_type = Reinforcing | Balancing

record cycle_record =
  cyc_type :: loop_type
  cyc_dominance :: int
  cyc_nodes :: "string list"
  cyc_chain :: string
  cyc_weights :: "rat list"

text \<open>
  \<^verbatim>\<open>buildAdjacency\<close>: a \<^verbatim>\<open>Map\<close> from a source id to the array of its outgoing
  \<^verbatim>\<open>{to, weight}\<close> pairs, in edge order. \<open>outgoing\<close> is also
  \<^verbatim>\<open>adjacency.get(current) || []\<close>.
\<close>

type_synonym adjacency = "(string \<times> (string \<times> rat) list) list"

definition outgoing :: "adjacency \<Rightarrow> string \<Rightarrow> (string \<times> rat) list" where
  "outgoing adj k = (case map_of adj k of Some es \<Rightarrow> es | None \<Rightarrow> [])"

definition adj_add :: "edge \<Rightarrow> adjacency \<Rightarrow> adjacency" where
  "adj_add e adj =
     (let adj1 = (if map_of adj (e_from e) = None then AList.update (e_from e) [] adj else adj)
      in AList.update (e_from e) (outgoing adj1 (e_from e) @ [(e_to e, e_weight e)]) adj1)"

definition buildAdjacency :: "edge list \<Rightarrow> adjacency" where
  "buildAdjacency edges = fold adj_add edges []"

text \<open>\<^verbatim>\<open>Array.prototype.join\<close> on an array of strings.\<close>

fun join :: "string \<Rightarrow> string list \<Rightarrow> string" where
  "join sep [] = []"
| "join sep [x] = x"
| "join sep (x # y # ys) = x @ sep @ join sep (y # ys)"

text \<open>
  \<^verbatim>\<open>canonicalizeCycle\<close> (lines 110-129). The comparator of \<^verbatim>\<open>rotations.sort\<close> is the
  lexicographic order on arrays of equal length, so the first element of the sorted array
  is the head of \<^const>\<open>sort\<close> on lists of strings.
\<close>

definition rotations :: "'a list \<Rightarrow> 'a list list" where
  "rotations simple = map (\<lambda>i. drop i simple @ take i simple) [0..<length simple]"

definition canonicalizeCycle :: "string list \<Rightarrow> string option" where
  "canonicalizeCycle nodes =
     (if nodes = [] then None
      else
        let simple = butlast nodes in
        if length simple = 0 then None
        else
          let canonical = hd (sort (rotations simple))
          in Some (join ''->'' (canonical @ [hd canonical])))"

text \<open>\<^verbatim>\<open>stack.indexOf(x)\<close>, with \<open>None\<close> for -1.\<close>

fun indexOf :: "'a list \<Rightarrow> 'a \<Rightarrow> nat option" where
  "indexOf [] x = None"
| "indexOf (y # ys) x = (if y = x then Some 0 else map_option Suc (indexOf ys x))"

text \<open>
  \<^verbatim>\<open>edges.reduce((acc, edge) => Math.max(acc, Math.abs(edge.weight)), 0) || 1\<close>
  (line 137).
\<close>

definition maxAbsWeight :: "edge list \<Rightarrow> rat" where
  "maxAbsWeight edges =
     (let m = foldl (\<lambda>acc e. max acc \<bar>e_weight e\<bar>) 0 edges in if m = 0 then 1 else m)"

text \<open>\<^verbatim>\<open>Math.round\<close>: the nearest integer, a tie going up.\<close>

definition round_half_up :: "rat \<Rightarrow> int" where
  "round_half_up x = \<lfloor>x + 1 / 2\<rfloor>"

text \<open>The separator of \<^verbatim>\<open>chain\<close>: a space, the arrow U+2192 in UTF-8, a space.\<close>

definition arrow_sep :: string where
  "arrow_sep = [CHR '' '', CHR 0xE2, CHR 0x86, CHR 0x92, CHR '' '']"

text \<open>The record stored at lines 155-166.\<close>

definition mkRecord :: "rat \<Rightarrow> string list \<Rightarrow> rat list \<Rightarrow> cycle_record" where
  "mkRecord maxAbs cycleNodes cycleWeights =
     (let product = foldl (\<lambda>acc w. acc * (if w = 0 then 0 else sgn w)) 1 cycleWeights;
          avgAbs = foldl (\<lambda>acc w. acc + \<bar>w\<bar>) 0 cycleWeights / of_nat (length cycleWeights);
          dominance = round_half_up (clamp (Fin ((avgAbs / maxAbs) * 100)) 0 100)
      in \<lparr>cyc_type = (if product > 0 then Reinforcing else Balancing),
          cyc_dominance = dominance,
          cyc_nodes = butlast cycleNodes,
          cyc_chain = join arrow_sep cycleNodes,
          cyc_weights = cycleWeights\<rparr>)"

text \<open>
  Lines 150-168: the target of the edge is at position \<open>idx\<close> of the path stack; the weight
  of the edge has already been pushed on the edge stack.
\<close>

type_synonym seen_map = "(string \<times> cycle_record) list"

definition foundCycle :: "rat \<Rightarrow> string list \<Rightarrow> rat list \<Rightarrow> nat \<Rightarrow> string \<Rightarrow> seen_map \<Rightarrow> seen_map" where
  "foundCycle maxAbs stack edgeStack idx target seen =
     (if length stack - idx \<ge> 1 then
        let cycleNodes = drop idx stack @ [target];
            cycleWeights = drop idx edgeStack
        in case canonicalizeCycle cycleNodes of
             None \<Rightarrow> seen
           | Some key \<Rightarrow>
               if map_of seen key = None
               then AList.update key (mkRecord maxAbs cycleNodes cycleWeights) seen
               else seen
      else seen)"

text \<open>
  \<^verbatim>\<open>visit\<close> (lines 143-175). The stacks are restored when a call returns, so they are
  passed as arguments; \<open>visit_edges\<close> is the loop over the outgoing edges, with the current
  node already pushed on \<open>stack\<close>. The parameter \<^verbatim>\<open>start\<close> of the source is never read.
  The recursion ends because a node is entered only when it is not on the stack.
\<close>

definition adj_targets :: "adjacency \<Rightarrow> string set" where
  "adj_targets adj = (\<Union>p \<in> set adj. fst ` set (snd p))"

function visit :: "adjacency \<Rightarrow> rat \<Rightarrow> string list \<Rightarrow> rat list \<Rightarrow> seen_map \<Rightarrow> string \<Rightarrow> seen_map"
  and visit_edges :: "adjacency \<Rightarrow> rat \<Rightarrow> string list \<Rightarrow> rat list \<Rightarrow> seen_map \<Rightarrow> (string \<times> rat) list \<Rightarrow> seen_map"
where
  "visit adj maxAbs stack edgeStack seen current =
     visit_edges adj maxAbs (stack @ [current]) edgeStack seen (outgoing adj current)"
| "visit_edges adj maxAbs stack edgeStack seen [] = seen"
| "visit_edges adj maxAbs stack edgeStack seen (e # rest) =
     (let pushed = edgeStack @ [snd e];
          seen' = (case indexOf stack (fst e) of
                     Some idx \<Rightarrow> foundCycle maxAbs stack pushed idx (fst e) seen
                   | None \<Rightarrow> visit adj maxAbs stack pushed seen (fst e))
      in visit_edges adj maxAbs stack edgeStack seen' rest)"
  by pat_completeness auto

termination
proof (relation "inv_image (less_than <*lex*> less_than)
    (\<lambda>a. case a of
       Inl (adj, m, stack, es, seen, cur) \<Rightarrow>
         (card (adj_targets adj - set stack - {cur}), Suc (length (outgoing adj cur)))
     | Inr (adj, m, stack, es, seen, rest) \<Rightarrow>
         (card ((adj_targets adj \<union> fst ` set rest) - set stack), length rest))", goal_cases)
  case 1
  show ?case by (intro wf_inv_image wf_lex_prod wf_less_than)
next
  case (2 adj maxAbs stack edgeStack seen current)
  have "fst ` set (outgoing adj current) \<subseteq> adj_targets adj"
  proof (cases "map_of adj current")
    case None
    then show ?thesis by (simp add: outgoing_def)
  next
    case (Some es)
    then have "(current, es) \<in> set adj" by (rule map_of_SomeD)
    then show ?thesis using Some by (force simp: outgoing_def adj_targets_def)
  qed
  then have "adj_targets adj \<union> fst ` set (outgoing adj current) - set (stack @ [current])
             = adj_targets adj - set stack - {current}"
    by auto
  then show ?case by simp
next
  case (3 adj maxAbs stack edgeStack seen e rest x)
  have "indexOf xs y = None \<longleftrightarrow> y \<notin> set xs" for xs :: "string list" and y
    by (induction xs) auto
  with 3 have "fst e \<notin> set stack" by simp
  then have "adj_targets adj - set stack - {fst e}
             \<subset> adj_targets adj \<union> fst ` set (e # rest) - set stack"
    by auto
  moreover have "finite (adj_targets adj \<union> fst ` set (e # rest) - set stack)"
    by (simp add: adj_targets_def)
  ultimately have "card (adj_targets adj - set stack - {fst e})
                   < card (adj_targets adj \<union> fst ` set (e # rest) - set stack)"
    by (rule psubset_card_mono[rotated])
  then show ?case by simp
next
  case (4 adj maxAbs stack edgeStack seen e rest)
  have "card (adj_targets adj \<union> fst ` set rest - set stack)
        \<le> card (adj_targets adj \<union> fst ` set (e # rest) - set stack)"
    by (rule card_mono) (auto simp: adj_targets_def)
  then show ?case by auto
qed

text \<open>\<^verbatim>\<open>detectCycles\<close> (lines 131-184).\<close>

definition endpoints :: "edge list \<Rightarrow> string list" where
  "endpoints edges = concat (map (\<lambda>e. [e_from e, e_to e]) edges)"

text \<open>Array.from(new Set(xs)): the first occurrence of each element, in order.\<close>

definition uniq :: "'a list \<Rightarrow> 'a list" where
  "uniq xs = rev (remdups (rev xs))"

definition detectCycles :: "edge list \<Rightarrow> cycle_record list" where
  "detectCycles edges =
     (if edges = [] then []
      else
        let adjacency = buildAdjacency edges;
            nodes = uniq (endpoints edges);
            maxAbs = maxAbsWeight edges;
            seen = fold (\<lambda>node seen. visit adjacency maxAbs [] [] seen node) nodes []
        in map snd seen)"

section \<open>State projection\<close>

record five_factor =
  vitality :: rat
  cognition :: rat
  emotion :: rat
  adaptability :: rat
  meaning :: rat

type_synonym value_map = "(string \<times> rat) list"

definition getValue :: "value_map \<Rightarrow> string \<Rightarrow> rat" where
  "getValue finalValues name = (case map_of finalValues name of Some v \<Rightarrow> v | None \<Rightarrow> 5)"

definition aggregate :: "value_map \<Rightarrow> string list \<Rightarrow> string list \<Rightarrow> rat" where
  "aggregate finalValues positives negatives =
     (let posValues = (if positives \<noteq> [] then map (getValue finalValues) positives else [5]);
          negValues = (if negatives \<noteq> [] then map (getValue finalValues) negatives else [5]);
          posAvg = foldl (\<lambda>sum v. sum + v) 0 posValues / of_nat (length posValues);
          negAvg = foldl (\<lambda>sum v. sum + v) 0 negValues / of_nat (length negValues);
          adjusted = 5 + (posAvg - 5) * (6 / 10) - (negAvg - 5) * (6 / 10)
      in clamp (Fin adjusted) 1 10)"

definition deriveFiveFactorState :: "value_map \<Rightarrow> five_factor" where
  "deriveFiveFactorState finalValues =
     \<lparr>vitality = aggregate finalValues [''Belonging'', ''VagalTone'']
                   [''Isolation'', ''HPA'', ''Inflammation'', ''Neurodegeneration''],
      cognition = aggregate finalValues [''Meaning'', ''Belonging'']
                   [''Isolation'', ''Neurodegeneration'', ''Withdrawal''],
      emotion = aggregate finalValues [''Belonging'', ''Meaning'', ''VagalTone'']
                   [''Isolation'', ''Withdrawal'', ''HPA''],
      adaptability = aggregate finalValues [''VagalTone'', ''Meaning'', ''Belonging'']
                   [''HPA'', ''Inflammation'', ''Isolation''],
      meaning = aggregate finalValues [''Meaning'', ''Belonging''] [''Isolation'', ''Withdrawal'']\<rparr>"

section \<open>Integration\<close>

record snapshot =
  snap_step :: nat
  snap_values :: value_map

text \<open>
  The options (lines 215-217). \<^verbatim>\<open>Number.isInteger(opts.steps) && opts.steps > 0\<close> holds of
  a finite number that equals its floor and is positive.
\<close>

definition opt_steps :: "jsval \<Rightarrow> nat" where
  "opt_steps opts =
     (case getp opts ''steps'' of
        JNum (Fin q) \<Rightarrow> if of_int \<lfloor>q\<rfloor> = q \<and> q > 0 then nat \<lfloor>q\<rfloor> else 12
      | _ \<Rightarrow> 12)"

definition opt_dt :: "jsval \<Rightarrow> rat" where
  "opt_dt opts = (case getp opts ''dt'' of JNum (Fin q) \<Rightarrow> q | _ \<Rightarrow> 35 / 100)"

definition opt_damping :: "jsval \<Rightarrow> rat" where
  "opt_damping opts = (case getp opts ''damping'' of JNum (Fin q) \<Rightarrow> q | _ \<Rightarrow> 28 / 100)"

text \<open>Lines 222-225: the two maps filled from the variables, in order.\<close>

definition init_values :: "variable list \<Rightarrow> value_map" where
  "init_values variables =
     fold (\<lambda>v m. AList.update (var_id v) (clamp (Fin (var_value v)) NORMALIZED_RANGE_min NORMALIZED_RANGE_max) m)
       variables []"

definition init_baselines :: "variable list \<Rightarrow> value_map" where
  "init_baselines variables =
     fold (\<lambda>v m. AList.update (var_id v) (clamp (Fin (var_baseline v)) NORMALIZED_RANGE_min NORMALIZED_RANGE_max) m)
       variables []"

text \<open>
  \<^verbatim>\<open>captureSnapshot\<close> (lines 229-235): the entries of \<^verbatim>\<open>values\<close> copied into a fresh
  object, which is modelled by the list of the entries written to it, in the order of
  writing.
\<close>

definition captureSnapshot :: "nat \<Rightarrow> value_map \<Rightarrow> snapshot" where
  "captureSnapshot step vals = \<lparr>snap_step = step, snap_values = vals\<rparr>"

text \<open>Lines 245-251: one edge added to \<^verbatim>\<open>deltas\<close>, read from the current \<^verbatim>\<open>values\<close>.\<close>

definition accumulate :: "value_map \<Rightarrow> edge \<Rightarrow> value_map \<Rightarrow> value_map" where
  "accumulate vals e deltas =
     (case map_of vals (e_from e) of
        None \<Rightarrow> deltas
      | Some vf \<Rightarrow>
          (case map_of vals (e_to e) of
             None \<Rightarrow> deltas
           | Some vt \<Rightarrow>
               let influence = vf * e_weight e
               in AList.update (e_to e)
                    ((case map_of deltas (e_to e) of Some d \<Rightarrow> d | None \<Rightarrow> 0) + influence)
                    deltas))"

text \<open>Lines 253-258: the next value of one key.\<close>

definition nextValue :: "value_map \<Rightarrow> value_map \<Rightarrow> rat \<Rightarrow> rat \<Rightarrow> string \<Rightarrow> rat \<Rightarrow> rat" where
  "nextValue baselines deltas dt damping key currentValue =
     (let baseline = (case map_of baselines key of Some b \<Rightarrow> b | None \<Rightarrow> 5);
          delta = (case map_of deltas key of Some d \<Rightarrow> d | None \<Rightarrow> 0);
          nextValue = currentValue + dt * (delta - damping * (currentValue - baseline))
      in clamp (Fin nextValue) NORMALIZED_RANGE_min NORMALIZED_RANGE_max)"

text \<open>
  The body of the loop (lines 240-258). A \<^verbatim>\<open>Map\<close> has each key once, and the last
  \<^verbatim>\<open>forEach\<close> sets only the key it visits, so it is a map over the entries.
\<close>

definition eulerStep :: "edge list \<Rightarrow> value_map \<Rightarrow> rat \<Rightarrow> rat \<Rightarrow> value_map \<Rightarrow> value_map" where
  "eulerStep edges baselines dt damping vals =
     (let deltas0 = map (\<lambda>(key, v). (key, 0)) vals;
          deltas = fold (accumulate vals) edges deltas0
      in map (\<lambda>(key, currentValue). (key, nextValue baselines deltas dt damping key currentValue)) vals)"

text \<open>
  The loop \<^verbatim>\<open>for (step = 1; step <= steps; step += 1)\<close>: \<open>n\<close> iterations remain and the
  next one has number \<open>step\<close>.
\<close>

fun eulerLoop :: "edge list \<Rightarrow> value_map \<Rightarrow> rat \<Rightarrow> rat \<Rightarrow> nat \<Rightarrow> nat \<Rightarrow> value_map \<Rightarrow> snapshot list
    \<Rightarrow> snapshot list \<times> value_map" where
  "eulerLoop edges baselines dt damping 0 step vals timeSeries = (timeSeries, vals)"
| "eulerLoop edges baselines dt damping (Suc n) step vals timeSeries =
     (let vals' = eulerStep edges baselines dt damping vals
      in eulerLoop edges baselines dt damping n (step + 1) vals'
           (timeSeries @ [captureSnapshot step vals']))"

definition runEulerSimulation ::
    "variable list \<Rightarrow> edge list \<Rightarrow> jsval \<Rightarrow> error + snapshot list \<times> value_map" where
  "runEulerSimulation variables edges opts0 =
     (let opts = default_obj opts0 in
      if opts = JNull then Inl TypeError
      else
        let steps = opt_steps opts;
            dt = opt_dt opts;
            damping = opt_damping opts;
            vals = init_values variables;
            baselines = init_baselines variables
        in Inr (eulerLoop edges baselines dt damping steps 1 vals [captureSnapshot 0 vals]))"

section \<open>Anchoring to the initial state\<close>

definition VARIABLE_FACTORS :: "(string \<times> string list) list" where
  "VARIABLE_FACTORS =
     [(''Isolation'', [''emotion'', ''meaning'']),
      (''Belonging'', [''emotion'', ''meaning'']),
      (''HPA'', [''vitality'', ''adaptability'']),
      (''Inflammation'', [''vitality'', ''adaptability'']),
      (''Neurodegeneration'', [''cognition'', ''vitality'']),
      (''Withdrawal'', [''emotion'', ''adaptability'']),
      (''VagalTone'', [''vitality'', ''adaptability'', ''emotion'']),
      (''Meaning'', [''meaning'', ''cognition''])]"

text \<open>Lines 287-289: the finite numbers among the referenced factors.\<close>

definition anchorValues :: "(string \<Rightarrow> jsnum) \<Rightarrow> jsval \<Rightarrow> string list \<Rightarrow> rat list" where
  "anchorValues S initialState anchors =
     map fin_val (filter isFinite (map (\<lambda>factor. toNumber S (getp initialState factor) NaN) anchors))"

definition anchorVariable :: "(string \<Rightarrow> jsnum) \<Rightarrow> jsval \<Rightarrow> variable \<Rightarrow> variable" where
  "anchorVariable S initialState variable =
     (case map_of VARIABLE_FACTORS (var_id variable) of
        None \<Rightarrow> variable
      | Some anchors \<Rightarrow>
          if anchors = [] then variable
          else
            let vs = anchorValues S initialState anchors in
            if vs = [] then variable
            else
              let average = foldl (\<lambda>sum v. sum + v) 0 vs / of_nat (length vs);
                  clamped = clamp (Fin average) NORMALIZED_RANGE_min NORMALIZED_RANGE_max
              in variable\<lparr>var_value := clamped, var_baseline := clamped\<rparr>)"

definition applyInitialStateAnchors :: "(string \<Rightarrow> jsnum) \<Rightarrow> variable list \<Rightarrow> jsval \<Rightarrow> variable list" where
  "applyInitialStateAnchors S variables initialState =
     (if \<not> truthy initialState \<or> \<not> is_object initialState then variables
      else map (anchorVariable S initialState) variables)"

section \<open>The entry point\<close>

definition template_variables :: "variable list" where
  "template_variables =
     [\<lparr>var_id = ''Isolation'', var_value = 6, var_baseline = 5\<rparr>,
      \<lparr>var_id = ''Belonging'', var_value = 4, var_baseline = 5\<rparr>,
      \<lparr>var_id = ''HPA'', var_value = 6, var_baseline = 5\<rparr>,
      \<lparr>var_id = ''Inflammation'', var_value = 55 / 10, var_baseline = 5\<rparr>,
      \<lparr>var_id = ''Neurodegeneration'', var_value = 52 / 10, var_baseline = 5\<rparr>,
      \<lparr>var_id = ''Withdrawal'', var_value = 58 / 10, var_baseline = 5\<rparr>,
      \<lparr>var_id = ''VagalTone'', var_value = 48 / 10, var_baseline = 5\<rparr>,
      \<lparr>var_id = ''Meaning'', var_value = 45 / 10, var_baseline = 5\<rparr>]"

definition template_edges :: "edge list" where
  "template_edges =
     [\<lparr>e_from = ''Isolation'', e_to = ''HPA'', e_weight = 65 / 100\<rparr>,
      \<lparr>e_from = ''HPA'', e_to = ''Inflammation'', e_weight = 7 / 10\<rparr>,
      \<lparr>e_from = ''Inflammation'', e_to = ''Neurodegeneration'', e_weight = 55 / 100\<rparr>,
      \<lparr>e_from = ''Neurodegeneration'', e_to = ''Withdrawal'', e_weight = 42 / 100\<rparr>,
      \<lparr>e_from = ''Withdrawal'', e_to = ''Isolation'', e_weight = 58 / 100\<rparr>,
      \<lparr>e_from = ''Belonging'', e_to = ''Isolation'', e_weight = - (62 / 100)\<rparr>,
      \<lparr>e_from = ''Belonging'', e_to = ''VagalTone'', e_weight = 57 / 100\<rparr>,
      \<lparr>e_from = ''VagalTone'', e_to = ''HPA'', e_weight = - (68 / 100)\<rparr>,
      \<lparr>e_from = ''Meaning'', e_to = ''Belonging'', e_weight = 6 / 10\<rparr>,
      \<lparr>e_from = ''Meaning'', e_to = ''Isolation'', e_weight = - (45 / 100)\<rparr>,
      \<lparr>e_from = ''Isolation'', e_to = ''Meaning'', e_weight = - (35 / 100)\<rparr>,
      \<lparr>e_from = ''VagalTone'', e_to = ''Meaning'', e_weight = 38 / 100\<rparr>]"

record sim_result =
  loopsDetected :: "cycle_record list"
  timeSeries :: "snapshot list"
  newState :: five_factor

text \<open>Lines 309-333: the two lists the engine works on.\<close>

definition normalizedVariables :: "variable list \<Rightarrow> variable list" where
  "normalizedVariables variables = (if variables \<noteq> [] then variables else template_variables)"

definition normalizedEdges :: "edge list \<Rightarrow> edge list" where
  "normalizedEdges edges = (if edges \<noteq> [] then edges else template_edges)"

text \<open>
  \<^verbatim>\<open>runCausalSimulation\<close> (lines 305-345). Both parameters default to the empty object when
  they are \<^verbatim>\<open>undefined\<close>; \<^verbatim>\<open>opts.initialState\<close> throws for \<^verbatim>\<open>null\<close>.
\<close>

definition runCausalSimulation :: "(string \<Rightarrow> jsnum) \<Rightarrow> jsval \<Rightarrow> jsval \<Rightarrow> error + sim_result" where
  "runCausalSimulation S causalGraph0 opts0 =
     (let causalGraph = default_obj causalGraph0;
          opts = default_obj opts0
      in case normalizeVariables S causalGraph of
           Inl e \<Rightarrow> Inl e
         | Inr variables \<Rightarrow>
            (case normalizeEdges S causalGraph of
               Inl e \<Rightarrow> Inl e
             | Inr edges \<Rightarrow>
                if opts = JNull then Inl TypeError
                else
                  let anchoredVariables =
                        applyInitialStateAnchors S (normalizedVariables variables)
                          (getp opts ''initialState'')
                  in case runEulerSimulation anchoredVariables (normalizedEdges edges) opts of
                       Inl e \<Rightarrow> Inl e
                     | Inr (ts, finalValues) \<Rightarrow>
                         Inr \<lparr>loopsDetected = detectCycles (normalizedEdges edges),
                              timeSeries = ts,
                              newState = deriveFiveFactorState finalValues\<rparr>))"

section \<open>Notions used in the statements\<close>





text \<open>The variables the integrator starts from, for normalised variables \<open>vs\<close>.\<close>

definition anchoredVariables :: "(string \<Rightarrow> jsnum) \<Rightarrow> variable list \<Rightarrow> jsval \<Rightarrow> variable list" where
  "anchoredVariables S vs opts =
     applyInitialStateAnchors S (normalizedVariables vs) (getp (default_obj opts) ''initialState'')"

text \<open>
  Inputs used as examples: a string-to-number conversion that recognises no string, the
  graph with the single variable \<open>X\<close> (value 5, baseline 5) and the self-loop of weight
  \<open>-0.5\<close>, and the options \<^verbatim>\<open>{steps: 1, dt: 1, damping: 0}\<close>.
\<close>

definition S_none :: "string \<Rightarrow> jsnum" where
  "S_none s = NaN"

definition loop_graph :: jsval where
  "loop_graph =
     JObj [(''variables'', JArr [JObj [(''id'', JStr ''X''), (''value'', JNum (Fin 5)),
                                       (''baseline'', JNum (Fin 5))]]),
           (''edges'', JArr [JObj [(''from'', JStr ''X''), (''to'', JStr ''X''),
                                   (''weight'', JNum (Fin (- (1 / 2))))]])]"

definition unit_opts :: jsval where
  "unit_opts = JObj [(''steps'', JNum (Fin 1)), (''dt'', JNum (Fin 1)), (''damping'', JNum (Fin 0))]"

text \<open>What \<^const>\<open>runEulerSimulation\<close> returns when it returns.\<close>

definition integration :: "variable list \<Rightarrow> edge list \<Rightarrow> jsval \<Rightarrow> snapshot list \<times> value_map" where
  "integration variables edges opts =
     eulerLoop edges (init_baselines variables) (opt_dt (default_obj opts))
       (opt_damping (default_obj opts)) (opt_steps (default_obj opts)) 1
       (init_values variables) [captureSnapshot 0 (init_values variables)]"


text \<open>
  An edge takes part in a step when both endpoints are keys of the current values. The
  influence on \<open>k\<close> is the sum over these edges into \<open>k\<close> of the source value times the
  weight.
\<close>

definition known :: "value_map \<Rightarrow> edge \<Rightarrow> bool" where
  "known vals e = (map_of vals (e_from e) \<noteq> None \<and> map_of vals (e_to e) \<noteq> None)"

definition value_at :: "value_map \<Rightarrow> string \<Rightarrow> rat" where
  "value_at vals k = (case map_of vals k of Some x \<Rightarrow> x | None \<Rightarrow> 0)"

definition influence :: "value_map \<Rightarrow> edge list \<Rightarrow> string \<Rightarrow> rat" where
  "influence vals edges k =
     sum_list (map (\<lambda>e. value_at vals (e_from e) * e_weight e)
                 (filter (\<lambda>e. known vals e \<and> e_to e = k) edges))"

text \<open>The edges whose two endpoints are ids of the given variables.\<close>

definition known_edges :: "variable list \<Rightarrow> edge list \<Rightarrow> edge list" where
  "known_edges variables edges =
     filter (\<lambda>e. e_from e \<in> var_id ` set variables \<and> e_to e \<in> var_id ` set variables) edges"

text \<open>
  A second example: the variable \<open>Meaning\<close> given the value 2 in the graph, a variable \<open>Y\<close>
  outside the table of factors, and an initial state with \<^verbatim>\<open>meaning: 8\<close> and
  \<^verbatim>\<open>cognition: 6\<close>.
\<close>

definition anchor_graph :: jsval where
  "anchor_graph =
     JObj [(''variables'', JArr [JObj [(''id'', JStr ''Meaning''), (''value'', JNum (Fin 2))],
                                 JObj [(''id'', JStr ''Y''), (''value'', JNum (Fin 3))]]),
           (''edges'', JArr [JObj [(''from'', JStr ''Y''), (''to'', JStr ''Meaning''),
                                   (''weight'', JNum (Fin 1))]])]"


text \<open>
  A third example: the first example with two more edges, between ids \<open>Y\<close> and \<open>Z\<close> that
  are not variables.
\<close>

definition stray_graph :: jsval where
  "stray_graph =
     JObj [(''variables'', JArr [JObj [(''id'', JStr ''X''), (''value'', JNum (Fin 5)),
                                       (''baseline'', JNum (Fin 5))]]),
           (''edges'', JArr [JObj [(''from'', JStr ''X''), (''to'', JStr ''X''),
                                   (''weight'', JNum (Fin (- (1 / 2))))],
                             JObj [(''from'', JStr ''Y''), (''to'', JStr ''Z''),
                                   (''weight'', JNum (Fin 1))],
                             JObj [(''from'', JStr ''Z''), (''to'', JStr ''Y''),
                                   (''weight'', JNum (Fin 2))]])]"

text \<open>
  \<open>walk E ns ws\<close>: the list \<open>ns\<close> of nodes is a path of the edge list \<open>E\<close> and \<open>ws\<close> are the
  weights of the edges it follows, in order. A (simple) cycle of \<open>E\<close> is a non-empty list of
  distinct nodes with the weights of a walk that goes through them and back to the first.
\<close>

definition has_edge :: "edge list \<Rightarrow> string \<Rightarrow> string \<Rightarrow> rat \<Rightarrow> bool" where
  "has_edge E u v w = (\<lparr>e_from = u, e_to = v, e_weight = w\<rparr> \<in> set E)"

fun walk :: "edge list \<Rightarrow> string list \<Rightarrow> rat list \<Rightarrow> bool" where
  "walk E [] ws = (ws = [])"
| "walk E [u] ws = (ws = [])"
| "walk E (u # v # ns) ws =
     (case ws of [] \<Rightarrow> False | w # ws' \<Rightarrow> has_edge E u v w \<and> walk E (v # ns) ws')"

definition is_cycle :: "edge list \<Rightarrow> string list \<Rightarrow> rat list \<Rightarrow> bool" where
  "is_cycle E ns ws = (ns \<noteq> [] \<and> distinct ns \<and> walk E (ns @ [hd ns]) ws)"

text \<open>The key under which the engine stores the cycle through the nodes \<open>ns\<close>.\<close>

definition cycle_key :: "string list \<Rightarrow> string option" where
  "cycle_key ns = canonicalizeCycle (ns @ [hd ns])"

text \<open>The record the engine builds for the cycle through \<open>ns\<close> with edge weights \<open>ws\<close>.\<close>

definition cycle_record_of :: "edge list \<Rightarrow> string list \<Rightarrow> rat list \<Rightarrow> cycle_record" where
  "cycle_record_of E ns ws = mkRecord (maxAbsWeight E) (ns @ [hd ns]) ws"

text \<open>What holds of every entry of the map \<^verbatim>\<open>seen\<close> during the search.\<close>

definition good_entry :: "edge list \<Rightarrow> string \<times> cycle_record \<Rightarrow> bool" where
  "good_entry E p =
     (is_cycle E (cyc_nodes (snd p)) (cyc_weights (snd p)) \<and>
      snd p = cycle_record_of E (cyc_nodes (snd p)) (cyc_weights (snd p)) \<and>
      cycle_key (cyc_nodes (snd p)) = Some (fst p))"

definition seen_ok :: "edge list \<Rightarrow> seen_map \<Rightarrow> bool" where
  "seen_ok E seen = (list_all (good_entry E) seen \<and> distinct (map fst seen))"

text \<open>The adjacency map lists edges of \<open>E\<close> only.\<close>

definition adj_sound :: "edge list \<Rightarrow> adjacency \<Rightarrow> bool" where
  "adj_sound E adj = (\<forall>u. list_all (\<lambda>p. has_edge E u (fst p) (snd p)) (outgoing adj u))"

text \<open>The map \<^verbatim>\<open>seen\<close> when the search of \<^const>\<open>detectCycles\<close> ends.\<close>

definition cycle_search :: "edge list \<Rightarrow> seen_map" where
  "cycle_search E =
     fold (\<lambda>node seen. visit (buildAdjacency E) (maxAbsWeight E) [] [] seen node)
       (uniq (endpoints E)) []"



definition sign_product :: "rat list \<Rightarrow> rat" where
  "sign_product ws = prod_list (map sgn ws)"

text \<open>
  A labelling of the endpoints with \<open>1\<close> and \<open>-1\<close> such that the sign of every edge is the
  product of the labels of its endpoints.
\<close>

definition sign_labelling :: "edge list \<Rightarrow> (string \<Rightarrow> rat) \<Rightarrow> bool" where
  "sign_labelling E s =
     list_all (\<lambda>e. (s (e_from e) = 1 \<or> s (e_from e) = - 1) \<and>
                    (s (e_to e) = 1 \<or> s (e_to e) = - 1) \<and>
                    sgn (e_weight e) = s (e_from e) * s (e_to e)) E"

definition template_labelling :: "string \<Rightarrow> rat" where
  "template_labelling x =
     (if x = ''Belonging'' \<or> x = ''VagalTone'' \<or> x = ''Meaning'' then - 1 else 1)"

text \<open>
  A fourth example: no variables, and one edge between two ids of its own. A fifth: an edge
  list in which the node \<open>a->a\<close> has a self-loop of weight \<open>-1\<close> and forms a 2-cycle of
  weights 1 and 1 with the node \<open>a\<close>.
\<close>

definition partial_graph :: jsval where
  "partial_graph =
     JObj [(''variables'', JArr []),
           (''edges'', JArr [JObj [(''from'', JStr ''A''), (''to'', JStr ''B''),
                                   (''weight'', JNum (Fin 1))]])]"

definition collision_edges :: "edge list" where
  "collision_edges =
     [\<lparr>e_from = ''a->a'', e_to = ''a->a'', e_weight = - 1\<rparr>,
      \<lparr>e_from = ''a->a'', e_to = ''a'', e_weight = 1\<rparr>,
      \<lparr>e_from = ''a'', e_to = ''a->a'', e_weight = 1\<rparr>]"

section \<open>Ranges\<close>























section \<open>The shape of a run\<close>

lemma default_obj_idem: "default_obj (default_obj v) = default_obj v"
  by (simp add: default_obj_def)

lemma normalizeVariables_default: "normalizeVariables S (default_obj g) = normalizeVariables S g"
  by (simp add: normalizeVariables_def default_obj_idem)

lemma normalizeEdges_default: "normalizeEdges S (default_obj g) = normalizeEdges S g"
  by (simp add: normalizeEdges_def default_obj_idem)

lemma runEulerSimulation_eq:
  "runEulerSimulation variables edges opts =
     (if default_obj opts = JNull then Inl TypeError else Inr (integration variables edges opts))"
  by (simp add: runEulerSimulation_def integration_def Let_def)

lemma integration_default: "integration A es (default_obj opts) = integration A es opts"
  by (simp add: integration_def default_obj_idem)

lemma runCausalSimulation_Inr:
  assumes "runCausalSimulation S g opts = Inr r"
  shows "\<exists>vs es. normalizeVariables S g = Inr vs \<and> normalizeEdges S g = Inr es \<and>
           default_obj opts \<noteq> JNull \<and>
           loopsDetected r = detectCycles (normalizedEdges es) \<and>
           timeSeries r = fst (integration (anchoredVariables S vs opts) (normalizedEdges es) opts) \<and>
           newState r = deriveFiveFactorState
             (snd (integration (anchoredVariables S vs opts) (normalizedEdges es) opts))"
  using assms
  by (auto simp: runCausalSimulation_def Let_def normalizeVariables_default normalizeEdges_default
        runEulerSimulation_eq default_obj_idem anchoredVariables_def integration_default
      split: sum.splits if_splits prod.splits)

lemma eulerLoop_closed:
  "eulerLoop edges baselines dt damping n step vals ts =
     (ts @ map (\<lambda>i. captureSnapshot (step + i)
                  ((eulerStep edges baselines dt damping ^^ Suc i) vals)) [0..<n],
      (eulerStep edges baselines dt damping ^^ n) vals)"
proof (induction n arbitrary: step vals ts)
  case 0
  show ?case by simp
next
  case (Suc n)
  have "map (\<lambda>i. captureSnapshot (step + i) ((eulerStep edges baselines dt damping ^^ Suc i) vals))
          [0..<Suc n]
        = captureSnapshot step (eulerStep edges baselines dt damping vals)
          # map (\<lambda>i. captureSnapshot (step + 1 + i)
                   ((eulerStep edges baselines dt damping ^^ Suc i)
                      (eulerStep edges baselines dt damping vals))) [0..<n]"
    by (simp add: upt_conv_Cons map_Suc_upt[symmetric] funpow_swap1 del: upt_Suc)
  moreover have "(eulerStep edges baselines dt damping ^^ n)
                   (eulerStep edges baselines dt damping vals)
                 = (eulerStep edges baselines dt damping ^^ Suc n) vals"
    by (simp add: funpow_swap1)
  ultimately show ?case
    by (simp add: Suc.IH Let_def del: upt_Suc funpow.simps)
qed

lemma integration_closed:
  "integration A es opts =
     (map (\<lambda>i. captureSnapshot i
              ((eulerStep es (init_baselines A) (opt_dt (default_obj opts))
                  (opt_damping (default_obj opts)) ^^ i) (init_values A)))
        [0..<Suc (opt_steps (default_obj opts))],
      (eulerStep es (init_baselines A) (opt_dt (default_obj opts))
         (opt_damping (default_obj opts)) ^^ opt_steps (default_obj opts)) (init_values A))"
  by (simp add: integration_def eulerLoop_closed upt_conv_Cons map_Suc_upt[symmetric]
        del: upt_Suc funpow.simps)

section \<open>Results of a run\<close>

lemma loop_run:
  "runCausalSimulation S loop_graph unit_opts =
     Inr \<lparr>loopsDetected =
            [\<lparr>cyc_type = Balancing, cyc_dominance = 100, cyc_nodes = [''X''],
              cyc_chain = ''X'' @ arrow_sep @ ''X'', cyc_weights = [- (1 / 2)]\<rparr>],
          timeSeries = [\<lparr>snap_step = 0, snap_values = [(''X'', 5)]\<rparr>,
                        \<lparr>snap_step = 1, snap_values = [(''X'', 5 / 2)]\<rparr>],
          newState = \<lparr>vitality = 5, cognition = 5, emotion = 5, adaptability = 5, meaning = 5\<rparr>\<rparr>"
  by code_simp





text \<open>
  Claim C3. The engine is not total: for the graph description \<^verbatim>\<open>null\<close>, whatever the
  options, reading \<^verbatim>\<open>graph.variables\<close> throws a \<^verbatim>\<open>TypeError\<close>. (The default
  \<^verbatim>\<open>causalGraph = {}\<close> replaces \<^verbatim>\<open>undefined\<close> only.)
\<close>

theorem null_graph_throws: "runCausalSimulation S JNull opts = Inl TypeError"
  by (simp add: runCausalSimulation_def normalizeVariables_def default_obj_def)

text \<open>The same holds of the options: \<^verbatim>\<open>opts.initialState\<close> throws for \<^verbatim>\<open>null\<close>.\<close>

lemma null_opts_throws:
  "normalizeVariables S graph = Inr vs \<Longrightarrow> normalizeEdges S graph = Inr es \<Longrightarrow>
   runCausalSimulation S graph JNull = Inl TypeError"
  by (simp add: runCausalSimulation_def normalizeVariables_default normalizeEdges_default
        default_obj_def[of JNull])


lemma update_fresh: "k \<notin> fst ` set al \<Longrightarrow> AList.update k v al = al @ [(k, v)]"
  by (induction al) auto









section \<open>One integration step\<close>






lemma eulerStep_keys: "map fst (eulerStep edges baselines dt damping vals) = map fst vals"
  by (simp add: eulerStep_def Let_def comp_def case_prod_unfold)

lemma funpow_eulerStep_keys:
  "map fst ((eulerStep edges baselines dt damping ^^ i) vals) = map fst vals"
  by (induction i) (simp_all add: eulerStep_keys)


lemma update_keys: "fst ` set (AList.update k v m) = insert k (fst ` set m)"
  by (induction m) auto

lemma init_values_keys: "fst ` set (init_values vs) = var_id ` set vs"
proof -
  have "fst ` set (fold (\<lambda>v m. AList.update (var_id v) (f v) m) vs m)
        = fst ` set m \<union> var_id ` set vs" for m f
    by (induction vs arbitrary: m) (simp_all add: update_keys)
  from this[of _ "[]"] show ?thesis by (simp add: init_values_def)
qed






section \<open>Anchoring\<close>








lemma anchor_vars:
  "normalizeVariables S anchor_graph =
     Inr [\<lparr>var_id = ''Meaning'', var_value = 2, var_baseline = 2\<rparr>,
          \<lparr>var_id = ''Y'', var_value = 3, var_baseline = 3\<rparr>]"
  by code_simp


section \<open>A self-loop, and edges outside the variable set\<close>

text \<open>
  Claim C7. For the edge list that consists of the self-loop from \<open>X\<close> to \<open>X\<close> with weight
  \<open>-0.5\<close>, \<^verbatim>\<open>detectCycles\<close> returns exactly one record: type Balancing, nodes \<open>[X]\<close>,
  dominance 100.
\<close>

theorem self_loop_cycle:
  "detectCycles [\<lparr>e_from = ''X'', e_to = ''X'', e_weight = - (1 / 2)\<rparr>] =
     [\<lparr>cyc_type = Balancing, cyc_dominance = 100, cyc_nodes = [''X''],
       cyc_chain = ''X'' @ arrow_sep @ ''X'', cyc_weights = [- (1 / 2)]\<rparr>]"
  by code_simp

lemma known_iff: "known vals e \<longleftrightarrow> e_from e \<in> fst ` set vals \<and> e_to e \<in> fst ` set vals"
  by (simp add: known_def map_of_eq_None_iff)

lemma accumulate_unknown: "\<not> known vals e \<Longrightarrow> accumulate vals e d = d"
  by (auto simp: accumulate_def known_def split: option.splits)

lemma fold_accumulate_known:
  "fold (accumulate vals) edges d = fold (accumulate vals) (filter (known vals) edges) d"
  by (induction edges arbitrary: d) (simp_all add: accumulate_unknown)

lemma eulerStep_known:
  "eulerStep edges baselines dt damping vals
   = eulerStep (filter (known vals) edges) baselines dt damping vals"
  unfolding eulerStep_def Let_def
  by (subst fold_accumulate_known) simp

lemma filter_known_keys:
  "fst ` set vals = var_id ` set A \<Longrightarrow> filter (known vals) edges = known_edges A edges"
  unfolding known_edges_def by (rule filter_cong) (simp_all add: known_iff)

lemma funpow_eulerStep_known:
  assumes "fst ` set vals = var_id ` set A"
  shows "(eulerStep edges baselines dt damping ^^ i) vals
         = (eulerStep (known_edges A edges) baselines dt damping ^^ i) vals"
proof (induction i)
  case 0
  show ?case by simp
next
  case (Suc i)
  let ?w = "(eulerStep (known_edges A edges) baselines dt damping ^^ i) vals"
  have "set (map fst ?w) = set (map fst vals)" by (simp only: funpow_eulerStep_keys)
  then have k: "fst ` set ?w = var_id ` set A" using assms by simp
  show ?case
    by (simp add: Suc.IH) (subst eulerStep_known, simp add: filter_known_keys[OF k])
qed

lemma integration_known:
  "integration A edges opts = integration A (known_edges A edges) opts"
proof -
  have eq: "(eulerStep edges baselines dt damping ^^ i) (init_values A)
            = (eulerStep (known_edges A edges) baselines dt damping ^^ i) (init_values A)"
    for baselines dt damping i
    by (rule funpow_eulerStep_known[OF init_values_keys])
  show ?thesis
    unfolding integration_closed by (simp only: eq)
qed

lemma set_uniq: "set (uniq xs) = set xs"
  by (simp add: uniq_def)

lemma set_endpoints: "set (endpoints edges) = e_from ` set edges \<union> e_to ` set edges"
  by (induction edges) (auto simp: endpoints_def)

lemma stray_run:
  "runCausalSimulation S stray_graph unit_opts =
     Inr \<lparr>loopsDetected =
            [\<lparr>cyc_type = Balancing, cyc_dominance = 25, cyc_nodes = [''X''],
              cyc_chain = ''X'' @ arrow_sep @ ''X'', cyc_weights = [- (1 / 2)]\<rparr>,
             \<lparr>cyc_type = Reinforcing, cyc_dominance = 75, cyc_nodes = [''Y'', ''Z''],
              cyc_chain = ''Y'' @ arrow_sep @ ''Z'' @ arrow_sep @ ''Y'', cyc_weights = [1, 2]\<rparr>],
          timeSeries = [\<lparr>snap_step = 0, snap_values = [(''X'', 5)]\<rparr>,
                        \<lparr>snap_step = 1, snap_values = [(''X'', 5 / 2)]\<rparr>],
          newState = \<lparr>vitality = 5, cognition = 5, emotion = 5, adaptability = 5, meaning = 5\<rparr>\<rparr>"
  by code_simp

text \<open>
  Claim C10. In a returning run the time series and the final state are those of the
  integration over the edges whose two endpoints are variables: an edge with an endpoint
  outside the variable set contributes to no step. Cycle detection runs on the whole edge
  list, and the nodes it starts from are all the ids that occur as an endpoint. In the
  example, adding the edges \<open>Y \<rightarrow> Z\<close> and \<open>Z \<rightarrow> Y\<close> between ids that are not variables leaves
  the time series and the state unchanged and adds the cycle \<open>[Y, Z]\<close> to the loops.
\<close>

theorem unknown_endpoints:
  "(runCausalSimulation S graph opts = Inr r \<longrightarrow>
      (\<exists>vs es. normalizeVariables S graph = Inr vs \<and> normalizeEdges S graph = Inr es \<and>
         timeSeries r = fst (integration (anchoredVariables S vs opts)
                          (known_edges (anchoredVariables S vs opts) (normalizedEdges es)) opts) \<and>
         newState r = deriveFiveFactorState (snd (integration (anchoredVariables S vs opts)
                          (known_edges (anchoredVariables S vs opts) (normalizedEdges es)) opts)) \<and>
         loopsDetected r = detectCycles (normalizedEdges es) \<and>
         set (uniq (endpoints (normalizedEdges es)))
           = e_from ` set (normalizedEdges es) \<union> e_to ` set (normalizedEdges es))) \<and>
   (\<exists>r1 r2. runCausalSimulation S loop_graph unit_opts = Inr r1 \<and>
       runCausalSimulation S stray_graph unit_opts = Inr r2 \<and>
       timeSeries r2 = timeSeries r1 \<and> newState r2 = newState r1 \<and>
       map cyc_nodes (loopsDetected r1) = [[''X'']] \<and>
       map cyc_nodes (loopsDetected r2) = [[''X''], [''Y'', ''Z'']])"
proof (intro conjI impI)
  assume run: "runCausalSimulation S graph opts = Inr r"
  from runCausalSimulation_Inr[OF run] obtain vs es where
    vs: "normalizeVariables S graph = Inr vs" and es: "normalizeEdges S graph = Inr es" and
    lp: "loopsDetected r = detectCycles (normalizedEdges es)" and
    ts: "timeSeries r = fst (integration (anchoredVariables S vs opts) (normalizedEdges es) opts)" and
    ns: "newState r = deriveFiveFactorState
           (snd (integration (anchoredVariables S vs opts) (normalizedEdges es) opts))"
    by blast
  let ?A = "anchoredVariables S vs opts"
  have k: "integration ?A (normalizedEdges es) opts
           = integration ?A (known_edges ?A (normalizedEdges es)) opts"
    by (rule integration_known)
  have n: "set (uniq (endpoints (normalizedEdges es)))
           = e_from ` set (normalizedEdges es) \<union> e_to ` set (normalizedEdges es)"
    by (simp only: set_uniq set_endpoints)
  show "\<exists>vs es. normalizeVariables S graph = Inr vs \<and> normalizeEdges S graph = Inr es \<and>
         timeSeries r = fst (integration (anchoredVariables S vs opts)
                          (known_edges (anchoredVariables S vs opts) (normalizedEdges es)) opts) \<and>
         newState r = deriveFiveFactorState (snd (integration (anchoredVariables S vs opts)
                          (known_edges (anchoredVariables S vs opts) (normalizedEdges es)) opts)) \<and>
         loopsDetected r = detectCycles (normalizedEdges es) \<and>
         set (uniq (endpoints (normalizedEdges es)))
           = e_from ` set (normalizedEdges es) \<union> e_to ` set (normalizedEdges es)"
    by (intro exI[of _ vs] exI[of _ es] conjI vs es lp n) (simp_all only: ts ns k)
next
  have 1: "runCausalSimulation S loop_graph unit_opts = Inr
     \<lparr>loopsDetected =
            [\<lparr>cyc_type = Balancing, cyc_dominance = 100, cyc_nodes = [''X''],
              cyc_chain = ''X'' @ arrow_sep @ ''X'', cyc_weights = [- (1 / 2)]\<rparr>],
          timeSeries = [\<lparr>snap_step = 0, snap_values = [(''X'', 5)]\<rparr>,
                        \<lparr>snap_step = 1, snap_values = [(''X'', 5 / 2)]\<rparr>],
          newState = \<lparr>vitality = 5, cognition = 5, emotion = 5, adaptability = 5, meaning = 5\<rparr>\<rparr>"
    by (rule loop_run)
  have 2: "runCausalSimulation S stray_graph unit_opts = Inr
      \<lparr>loopsDetected =
            [\<lparr>cyc_type = Balancing, cyc_dominance = 25, cyc_nodes = [''X''],
              cyc_chain = ''X'' @ arrow_sep @ ''X'', cyc_weights = [- (1 / 2)]\<rparr>,
             \<lparr>cyc_type = Reinforcing, cyc_dominance = 75, cyc_nodes = [''Y'', ''Z''],
              cyc_chain = ''Y'' @ arrow_sep @ ''Z'' @ arrow_sep @ ''Y'', cyc_weights = [1, 2]\<rparr>],
          timeSeries = [\<lparr>snap_step = 0, snap_values = [(''X'', 5)]\<rparr>,
                        \<lparr>snap_step = 1, snap_values = [(''X'', 5 / 2)]\<rparr>],
          newState = \<lparr>vitality = 5, cognition = 5, emotion = 5, adaptability = 5, meaning = 5\<rparr>\<rparr>"
    by (rule stray_run)
  show "\<exists>r1 r2. runCausalSimulation S loop_graph unit_opts = Inr r1 \<and>
       runCausalSimulation S stray_graph unit_opts = Inr r2 \<and>
       timeSeries r2 = timeSeries r1 \<and> newState r2 = newState r1 \<and>
       map cyc_nodes (loopsDetected r1) = [[''X'']] \<and>
       map cyc_nodes (loopsDetected r2) = [[''X''], [''Y'', ''Z'']]"
    by (intro exI conjI, rule 1, rule 2) simp_all
qed

theorem unknown_endpoints_witness:
  "\<exists>r. runCausalSimulation S_none stray_graph unit_opts = Inr r \<and>
       timeSeries r = fst (integration [\<lparr>var_id = ''X'', var_value = 5, var_baseline = 5\<rparr>]
                             [\<lparr>e_from = ''X'', e_to = ''X'', e_weight = - (1 / 2)\<rparr>] unit_opts) \<and>
       map cyc_nodes (loopsDetected r) = [[''X''], [''Y'', ''Z'']]"
proof -
  let ?r = "\<lparr>loopsDetected =
            [\<lparr>cyc_type = Balancing, cyc_dominance = 25, cyc_nodes = [''X''],
              cyc_chain = ''X'' @ arrow_sep @ ''X'', cyc_weights = [- (1 / 2)]\<rparr>,
             \<lparr>cyc_type = Reinforcing, cyc_dominance = 75, cyc_nodes = [''Y'', ''Z''],
              cyc_chain = ''Y'' @ arrow_sep @ ''Z'' @ arrow_sep @ ''Y'', cyc_weights = [1, 2]\<rparr>],
          timeSeries = [\<lparr>snap_step = 0, snap_values = [(''X'', 5)]\<rparr>,
                        \<lparr>snap_step = 1, snap_values = [(''X'', 5 / 2)]\<rparr>],
          newState = \<lparr>vitality = 5, cognition = 5, emotion = 5, adaptability = 5, meaning = 5\<rparr>\<rparr>"
  have run: "runCausalSimulation S_none stray_graph unit_opts = Inr ?r" by (rule stray_run)
  have v: "normalizeVariables S_none stray_graph
           = Inr [\<lparr>var_id = ''X'', var_value = 5, var_baseline = 5\<rparr>]"
    by code_simp
  have e: "normalizeEdges S_none stray_graph
           = Inr [\<lparr>e_from = ''X'', e_to = ''X'', e_weight = - (1 / 2)\<rparr>,
                  \<lparr>e_from = ''Y'', e_to = ''Z'', e_weight = 1\<rparr>,
                  \<lparr>e_from = ''Z'', e_to = ''Y'', e_weight = 2\<rparr>]"
    by code_simp
  have a: "anchoredVariables S_none [\<lparr>var_id = ''X'', var_value = 5, var_baseline = 5\<rparr>] unit_opts
           = [\<lparr>var_id = ''X'', var_value = 5, var_baseline = 5\<rparr>]"
    by code_simp
  have k: "known_edges [\<lparr>var_id = ''X'', var_value = 5, var_baseline = 5\<rparr>]
             (normalizedEdges [\<lparr>e_from = ''X'', e_to = ''X'', e_weight = - (1 / 2)\<rparr>,
                  \<lparr>e_from = ''Y'', e_to = ''Z'', e_weight = 1\<rparr>,
                  \<lparr>e_from = ''Z'', e_to = ''Y'', e_weight = 2\<rparr>])
           = [\<lparr>e_from = ''X'', e_to = ''X'', e_weight = - (1 / 2)\<rparr>]"
    by code_simp
  from unknown_endpoints[of S_none stray_graph unit_opts ?r] run
  obtain vs es where
    vs: "normalizeVariables S_none stray_graph = Inr vs" and
    es: "normalizeEdges S_none stray_graph = Inr es" and
    ts: "timeSeries ?r = fst (integration (anchoredVariables S_none vs unit_opts)
        (known_edges (anchoredVariables S_none vs unit_opts) (normalizedEdges es)) unit_opts)"
    by blast
  from vs v have vs': "vs = [\<lparr>var_id = ''X'', var_value = 5, var_baseline = 5\<rparr>]" by simp
  from es e have es': "es = [\<lparr>e_from = ''X'', e_to = ''X'', e_weight = - (1 / 2)\<rparr>,
                  \<lparr>e_from = ''Y'', e_to = ''Z'', e_weight = 1\<rparr>,
                  \<lparr>e_from = ''Z'', e_to = ''Y'', e_weight = 2\<rparr>]" by simp
  from ts have "timeSeries ?r = fst (integration [\<lparr>var_id = ''X'', var_value = 5, var_baseline = 5\<rparr>]
                             [\<lparr>e_from = ''X'', e_to = ''X'', e_weight = - (1 / 2)\<rparr>] unit_opts)"
    unfolding vs' es' a k .
  then show ?thesis
    by (intro exI[of _ ?r] conjI run) simp_all
qed

section \<open>The depth-first search\<close>

lemma indexOf_None: "indexOf xs x = None \<longleftrightarrow> x \<notin> set xs"
  by (induction xs) auto

lemma indexOf_Some: "indexOf xs x = Some i \<Longrightarrow> i < length xs \<and> xs ! i = x"
  by (induction xs arbitrary: i) (auto split: if_splits)

lemma indexOf_hd: "indexOf (x # xs) x = Some 0"
  by simp

lemma outgoing_adj_add:
  "outgoing (adj_add e adj) u =
     (if e_from e = u then outgoing adj u @ [(e_to e, e_weight e)] else outgoing adj u)"
  by (auto simp: adj_add_def outgoing_def Let_def update_conv' split: option.splits)

lemma outgoing_fold_adj_add:
  "outgoing (fold adj_add E adj) u
   = outgoing adj u @ map (\<lambda>e. (e_to e, e_weight e)) (filter (\<lambda>e. e_from e = u) E)"
  by (induction E arbitrary: adj) (simp_all add: outgoing_adj_add)

lemma outgoing_buildAdjacency:
  "outgoing (buildAdjacency E) u = map (\<lambda>e. (e_to e, e_weight e)) (filter (\<lambda>e. e_from e = u) E)"
  unfolding buildAdjacency_def outgoing_fold_adj_add by (simp add: outgoing_def)

lemma has_edge_iff: "has_edge E u v w \<longleftrightarrow> (\<exists>e \<in> set E. e_from e = u \<and> e_to e = v \<and> e_weight e = w)"
proof
  assume "has_edge E u v w"
  then have "\<lparr>e_from = u, e_to = v, e_weight = w\<rparr> \<in> set E" by (simp add: has_edge_def)
  then show "\<exists>e \<in> set E. e_from e = u \<and> e_to e = v \<and> e_weight e = w"
    by (rule bexI[rotated]) simp
next
  assume "\<exists>e \<in> set E. e_from e = u \<and> e_to e = v \<and> e_weight e = w"
  then obtain e where e: "e \<in> set E" "e_from e = u" "e_to e = v" "e_weight e = w" by blast
  have "e = \<lparr>e_from = u, e_to = v, e_weight = w\<rparr>" using e(2-4) by (cases e) simp
  with e(1) show "has_edge E u v w" by (simp add: has_edge_def)
qed

lemma adj_sound_build: "adj_sound E (buildAdjacency E)"
  by (auto simp: adj_sound_def outgoing_buildAdjacency list_all_iff has_edge_iff)

lemma walk_length: "walk E ns ws \<Longrightarrow> length ws = length ns - 1"
  by (induction E ns ws rule: walk.induct) (auto split: list.splits)

lemma walk_snoc:
  "walk E ns ws \<Longrightarrow> ns \<noteq> [] \<Longrightarrow> has_edge E (last ns) t w \<Longrightarrow> walk E (ns @ [t]) (ws @ [w])"
  by (induction E ns ws rule: walk.induct) (auto split: list.splits)

lemma walk_tl: "walk E (n # ns) ws \<Longrightarrow> walk E ns (tl ws)"
  by (cases ns) (auto split: list.splits)

lemma walk_drop: "walk E ns ws \<Longrightarrow> walk E (drop i ns) (drop i ws)"
proof (induction i arbitrary: ns ws)
  case 0
  then show ?case by simp
next
  case (Suc i)
  show ?case
  proof (cases ns)
    case Nil
    with Suc.prems show ?thesis by simp
  next
    case (Cons n ns')
    with Suc.prems have "walk E ns' (tl ws)" by (auto dest: walk_tl)
    from Suc.IH[OF this] show ?thesis by (simp add: Cons drop_Suc)
  qed
qed

lemma mkRecord_fields:
  "cyc_nodes (mkRecord m cn cw) = butlast cn" "cyc_weights (mkRecord m cn cw) = cw"
  by (simp_all add: mkRecord_def Let_def)

lemma foundCycle_ok:
  assumes seen: "seen_ok E seen" and st: "stack \<noteq> []" "distinct stack" "walk E stack es"
    and e: "has_edge E (last stack) t w" and idx: "indexOf stack t = Some idx"
  shows "seen_ok E (foundCycle (maxAbsWeight E) stack (es @ [w]) idx t seen)"
proof -
  from indexOf_Some[OF idx] have i: "idx < length stack" and t: "stack ! idx = t" by auto
  then have ge: "1 \<le> length stack - idx" by simp
  let ?ns = "drop idx stack"
  let ?ws = "drop idx (es @ [w])"
  have ne: "?ns \<noteq> []" using i by simp
  have hd: "hd ?ns = t" using i t by (simp add: hd_drop_conv_nth)
  have "walk E (stack @ [t]) (es @ [w])" using st e by (simp add: walk_snoc)
  from walk_drop[OF this, of idx] have w: "walk E (?ns @ [t]) ?ws" using i by simp
  have cyc: "is_cycle E ?ns ?ws" using ne st(2) w by (simp add: is_cycle_def hd)
  show ?thesis
  proof (cases "canonicalizeCycle (?ns @ [t])")
    case None
    then show ?thesis using seen by (simp add: foundCycle_def Let_def)
  next
    case (Some key)
    show ?thesis
    proof (cases "map_of seen key")
      case (Some r)
      then show ?thesis using seen \<open>canonicalizeCycle (?ns @ [t]) = Some key\<close>
        by (simp add: foundCycle_def Let_def)
    next
      case None
      have g: "good_entry E (key, mkRecord (maxAbsWeight E) (?ns @ [t]) ?ws)"
        using cyc \<open>canonicalizeCycle (?ns @ [t]) = Some key\<close>
        by (simp add: good_entry_def mkRecord_fields cycle_record_of_def cycle_key_def hd)
      have fresh: "key \<notin> fst ` set seen" using None by (simp add: map_of_eq_None_iff)
      have "seen_ok E (seen @ [(key, mkRecord (maxAbsWeight E) (?ns @ [t]) ?ws)])"
        using seen g fresh by (simp add: seen_ok_def)
      then show ?thesis using None ge \<open>canonicalizeCycle (?ns @ [t]) = Some key\<close>
        by (simp add: foundCycle_def Let_def update_fresh[OF fresh])
    qed
  qed
qed

lemma visit_ok:
  "adj_sound E adj \<Longrightarrow> m = maxAbsWeight E \<Longrightarrow> walk E (stack @ [current]) es \<Longrightarrow>
   distinct (stack @ [current]) \<Longrightarrow> seen_ok E seen \<Longrightarrow>
   seen_ok E (visit adj m stack es seen current)"
  and visit_edges_ok:
  "adj_sound E adj \<Longrightarrow> m = maxAbsWeight E \<Longrightarrow> stack' \<noteq> [] \<Longrightarrow> walk E stack' es' \<Longrightarrow>
   distinct stack' \<Longrightarrow> list_all (\<lambda>p. has_edge E (last stack') (fst p) (snd p)) rest \<Longrightarrow>
   seen_ok E seen' \<Longrightarrow>
   seen_ok E (visit_edges adj m stack' es' seen' rest)"
proof (induction adj m stack es seen current and adj m stack' es' seen' rest
       rule: visit_visit_edges.induct)
  case (1 adj maxAbs stack edgeStack seen current)
  have "list_all (\<lambda>p. has_edge E (last (stack @ [current])) (fst p) (snd p)) (outgoing adj current)"
    using "1.prems"(1) by (simp add: adj_sound_def)
  with 1 show ?case by simp
next
  case (2 adj maxAbs stack edgeStack seen)
  then show ?case by simp
next
  case (3 adj maxAbs stack edgeStack seen e rest)
  have e: "has_edge E (last stack) (fst e) (snd e)" using "3.prems"(6) by simp
  have rest: "list_all (\<lambda>p. has_edge E (last stack) (fst p) (snd p)) rest"
    using "3.prems"(6) by simp
  let ?pushed = "edgeStack @ [snd e]"
  let ?seen' = "case indexOf stack (fst e) of
                  Some idx \<Rightarrow> foundCycle maxAbs stack ?pushed idx (fst e) seen
                | None \<Rightarrow> visit adj maxAbs stack ?pushed seen (fst e)"
  have ok: "seen_ok E ?seen'"
  proof (cases "indexOf stack (fst e)")
    case None
    then have "fst e \<notin> set stack" by (simp add: indexOf_None)
    then have d: "distinct (stack @ [fst e])" using "3.prems"(5) by simp
    have w: "walk E (stack @ [fst e]) ?pushed"
      using "3.prems"(3,4) e by (simp add: walk_snoc)
    from "3.IH"(1)[OF refl None "3.prems"(1,2) w d "3.prems"(7)] None show ?thesis by simp
  next
    case (Some idx)
    from foundCycle_ok[OF "3.prems"(7,3,5,4) e Some] Some "3.prems"(2) show ?thesis by simp
  qed
  from "3.IH"(2)[OF refl refl "3.prems"(1,2,3,4,5) rest ok] show ?case
    by (simp add: Let_def)
qed

lemma detectCycles_eq: "detectCycles E = map snd (cycle_search E)"
  by (simp add: detectCycles_def cycle_search_def Let_def endpoints_def uniq_def)

lemma fold_visit_ok:
  "adj_sound E adj \<Longrightarrow> seen_ok E seen \<Longrightarrow>
   seen_ok E (fold (\<lambda>node seen. visit adj (maxAbsWeight E) [] [] seen node) nodes seen)"
  by (induction nodes arbitrary: seen) (simp_all add: visit_ok del: visit.simps)

lemma cycle_search_ok: "seen_ok E (cycle_search E)"
  unfolding cycle_search_def
  by (rule fold_visit_ok[OF adj_sound_build]) (simp add: seen_ok_def)

lemma detectCycles_sound:
  assumes "r \<in> set (detectCycles E)"
  shows "is_cycle E (cyc_nodes r) (cyc_weights r) \<and>
         r = cycle_record_of E (cyc_nodes r) (cyc_weights r)"
proof -
  from assms obtain k where "(k, r) \<in> set (cycle_search E)"
    by (auto simp: detectCycles_eq)
  with cycle_search_ok[of E] have "good_entry E (k, r)"
    by (auto simp: seen_ok_def list_all_iff)
  then show ?thesis by (simp add: good_entry_def)
qed

lemma detectCycles_distinct_keys:
  "distinct (map (\<lambda>r. cycle_key (cyc_nodes r)) (detectCycles E))"
proof -
  have "map (\<lambda>r. cycle_key (cyc_nodes r)) (detectCycles E) = map (\<lambda>p. Some (fst p)) (cycle_search E)"
    using cycle_search_ok[of E]
    by (auto simp: detectCycles_eq seen_ok_def list_all_iff good_entry_def)
  moreover have "distinct (map (\<lambda>p. Some (fst p)) (cycle_search E))"
    using cycle_search_ok[of E] by (simp add: seen_ok_def distinct_map inj_on_def)
  ultimately show ?thesis by simp
qed

text \<open>Keys are never removed.\<close>

lemma foundCycle_keys: "fst ` set seen \<subseteq> fst ` set (foundCycle m stack es idx t seen)"
  by (auto simp: foundCycle_def Let_def update_keys split: option.splits)

lemma visit_keys: "fst ` set seen \<subseteq> fst ` set (visit adj m stack es seen current)"
  and visit_edges_keys: "fst ` set seen' \<subseteq> fst ` set (visit_edges adj m stack' es' seen' rest)"
proof (induction adj m stack es seen current and adj m stack' es' seen' rest
       rule: visit_visit_edges.induct)
  case (1 adj maxAbs stack edgeStack seen current)
  then show ?case by simp
next
  case (2 adj maxAbs stack edgeStack seen)
  show ?case by simp
next
  case (3 adj maxAbs stack edgeStack seen e rest)
  let ?pushed = "edgeStack @ [snd e]"
  let ?seen' = "case indexOf stack (fst e) of
                  Some idx \<Rightarrow> foundCycle maxAbs stack ?pushed idx (fst e) seen
                | None \<Rightarrow> visit adj maxAbs stack ?pushed seen (fst e)"
  have a: "fst ` set seen \<subseteq> fst ` set ?seen'"
  proof (cases "indexOf stack (fst e)")
    case None
    from "3.IH"(1)[OF refl None] None show ?thesis by simp
  next
    case (Some idx)
    with foundCycle_keys show ?thesis by simp
  qed
  from "3.IH"(2)[OF refl refl] have "fst ` set ?seen' \<subseteq> fst ` set (visit_edges adj maxAbs stack edgeStack ?seen' rest)" .
  with a show ?case by (auto simp: Let_def)
qed

lemma visit_edges_reaches:
  assumes "(t, w) \<in> set rest"
    and "\<And>seen0. key \<in> fst ` set
            (case indexOf stack t of
               Some idx \<Rightarrow> foundCycle m stack (es @ [w]) idx t seen0
             | None \<Rightarrow> visit adj m stack (es @ [w]) seen0 t)"
  shows "key \<in> fst ` set (visit_edges adj m stack es seen rest)"
  using assms(1)
proof (induction rest arbitrary: seen)
  case Nil
  then show ?case by simp
next
  case (Cons e rest)
  let ?seen' = "case indexOf stack (fst e) of
                  Some idx \<Rightarrow> foundCycle m stack (es @ [snd e]) idx (fst e) seen
                | None \<Rightarrow> visit adj m stack (es @ [snd e]) seen (fst e)"
  show ?case
  proof (cases "e = (t, w)")
    case True
    have "key \<in> fst ` set ?seen'" unfolding True using assms(2)[of seen]
      by (simp split: option.splits del: visit.simps)
    with visit_edges_keys[of ?seen' adj m stack es rest] show ?thesis
      by (auto simp: Let_def)
  next
    case False
    with Cons.prems have "(t, w) \<in> set rest" by auto
    from Cons.IH[OF this, of ?seen'] show ?thesis by (simp add: Let_def)
  qed
qed

lemma fold_visit_keys:
  "fst ` set seen \<subseteq> fst ` set (fold (\<lambda>node seen. visit adj m [] [] seen node) nodes seen)"
proof (induction nodes arbitrary: seen)
  case Nil
  show ?case by simp
next
  case (Cons n nodes)
  from visit_keys[of seen adj m "[]" "[]" n] Cons.IH[of "visit adj m [] [] seen n"]
  show ?case by (auto simp del: visit.simps)
qed

lemma fold_visit_reaches:
  assumes "node \<in> set nodes" and "\<And>seen0. key \<in> fst ` set (visit adj m [] [] seen0 node)"
  shows "key \<in> fst ` set (fold (\<lambda>node seen. visit adj m [] [] seen node) nodes seen)"
  using assms(1)
proof (induction nodes arbitrary: seen)
  case Nil
  then show ?case by simp
next
  case (Cons n nodes)
  show ?case
  proof (cases "n = node")
    case True
    with assms(2)[of seen] fold_visit_keys[of "visit adj m [] [] seen n" adj m nodes]
    show ?thesis by (auto simp del: visit.simps)
  next
    case False
    with Cons.prems have "node \<in> set nodes" by auto
    from Cons.IH[OF this] show ?thesis by (simp del: visit.simps)
  qed
qed

lemma walk_nth:
  "walk E ns ws \<Longrightarrow> Suc i < length ns \<Longrightarrow> has_edge E (ns ! i) (ns ! Suc i) (ws ! i)"
proof (induction E ns ws arbitrary: i rule: walk.induct)
  case (3 E u v ns ws)
  then show ?case by (cases i) (auto split: list.splits)
qed simp_all

lemma foundCycle_adds:
  assumes "canonicalizeCycle (drop idx stack @ [t]) = Some key" and "idx < length stack"
  shows "key \<in> fst ` set (foundCycle m stack es idx t seen)"
proof (cases "map_of seen key")
  case None
  with assms show ?thesis by (simp add: foundCycle_def Let_def update_keys)
next
  case (Some r)
  then have "key \<in> fst ` set seen" by (metis map_of_eq_None_iff option.distinct(1))
  with Some assms show ?thesis by (simp add: foundCycle_def Let_def)
qed

lemma cycle_path_found:
  assumes ns: "ns \<noteq> []" "distinct ns" and w: "walk E (ns @ [hd ns]) ws"
    and adj: "\<And>u t x. has_edge E u t x \<Longrightarrow> (t, x) \<in> set (outgoing adj u)"
    and key: "cycle_key ns = Some key"
    and i: "i < length ns"
  shows "key \<in> fst ` set (visit adj m (take i ns) es seen (ns ! i))"
  using i
proof (induction "length ns - i" arbitrary: i es seen)
  case 0
  then show ?case by simp
next
  case (Suc d)
  let ?stack = "take (Suc i) ns"
  have st: "take i ns @ [ns ! i] = ?stack" using Suc.prems by (simp add: take_Suc_conv_app_nth)
  have e: "has_edge E (ns ! i) ((ns @ [hd ns]) ! Suc i) (ws ! i)"
    using walk_nth[OF w, where i=i] Suc.prems by (simp add: nth_append)
  then have mem: "((ns @ [hd ns]) ! Suc i, ws ! i) \<in> set (outgoing adj (ns ! i))" by (rule adj)
  have "key \<in> fst ` set (visit_edges adj m ?stack es seen (outgoing adj (ns ! i)))"
  proof (rule visit_edges_reaches[OF mem])
    fix seen0
    show "key \<in> fst ` set
            (case indexOf ?stack ((ns @ [hd ns]) ! Suc i) of
               Some idx \<Rightarrow> foundCycle m ?stack (es @ [ws ! i]) idx ((ns @ [hd ns]) ! Suc i) seen0
             | None \<Rightarrow> visit adj m ?stack (es @ [ws ! i]) seen0 ((ns @ [hd ns]) ! Suc i))"
    proof (cases "Suc i < length ns")
      case True
      then have nx: "(ns @ [hd ns]) ! Suc i = ns ! Suc i" by (simp add: nth_append)
      have "ns ! Suc i \<notin> set ?stack"
      proof
        assume "ns ! Suc i \<in> set ?stack"
        then obtain j where j: "j < Suc i" "ns ! j = ns ! Suc i"
          using True by (auto simp: in_set_conv_nth)
        with ns(2) True show False by (auto simp: distinct_conv_nth)
      qed
      then have none: "indexOf ?stack (ns ! Suc i) = None" by (simp add: indexOf_None)
      have "d = length ns - Suc i" using Suc.hyps(2) by simp
      from Suc.hyps(1)[OF this True] show ?thesis by (simp add: nx none del: visit.simps)
    next
      case False
      with Suc.prems have last: "Suc i = length ns" by simp
      then have nx: "(ns @ [hd ns]) ! Suc i = hd ns" by (simp add: nth_append)
      have full: "?stack = ns" using last by simp
      from ns(1) obtain a as where nsa: "ns = a # as" by (cases ns) auto
      have idx: "indexOf ns (hd ns) = Some 0" by (simp add: nsa)
      have "canonicalizeCycle (drop 0 ns @ [hd ns]) = Some key" using key by (simp add: cycle_key_def)
      from foundCycle_adds[OF this, where m=m and es="es @ [ws ! i]" and seen=seen0] ns(1)
      show ?thesis by (simp add: nx full idx)
    qed
  qed
  then show ?case by (simp add: st)
qed

lemma adj_complete:
  "has_edge E u t x \<Longrightarrow> (t, x) \<in> set (outgoing (buildAdjacency E) u)"
  by (force simp: outgoing_buildAdjacency has_edge_iff)

lemma cycle_key_Some: "ns \<noteq> [] \<Longrightarrow> \<exists>key. cycle_key ns = Some key"
  by (simp add: cycle_key_def canonicalizeCycle_def Let_def)

lemma detectCycles_complete:
  assumes "is_cycle E ns ws"
  shows "\<exists>r \<in> set (detectCycles E). cycle_key (cyc_nodes r) = cycle_key ns"
proof -
  from assms have ns: "ns \<noteq> []" "distinct ns" and w: "walk E (ns @ [hd ns]) ws"
    by (simp_all add: is_cycle_def)
  from cycle_key_Some[OF ns(1)] obtain key where key: "cycle_key ns = Some key" ..
  have e0: "has_edge E (hd ns) ((ns @ [hd ns]) ! Suc 0) (ws ! 0)"
    using walk_nth[OF w, where i=0] ns(1) by (simp add: nth_append hd_conv_nth)
  then have "hd ns \<in> set (uniq (endpoints E))"
    by (force simp: set_uniq set_endpoints has_edge_iff)
  moreover have "key \<in> fst ` set (visit (buildAdjacency E) (maxAbsWeight E) [] [] seen0 (hd ns))"
    for seen0
    using cycle_path_found[where adj="buildAdjacency E" and i=0 and m="maxAbsWeight E"
        and es="[]" and seen=seen0, OF ns w adj_complete key] ns(1)
    by (simp add: hd_conv_nth del: visit.simps)
  ultimately have "key \<in> fst ` set (cycle_search E)"
    unfolding cycle_search_def by (rule fold_visit_reaches)
  then obtain r where kr: "(key, r) \<in> set (cycle_search E)" by auto
  with cycle_search_ok[of E] have "cycle_key (cyc_nodes r) = Some key"
    by (auto simp: seen_ok_def list_all_iff good_entry_def)
  moreover have "r \<in> set (detectCycles E)" using kr by (force simp: detectCycles_eq)
  ultimately show ?thesis using key by auto
qed

section \<open>Dominance and polarity\<close>


lemma foldl_sign_prod:
  "foldl (\<lambda>acc w. acc * (if w = 0 then 0 else sgn w)) (a::rat) ws = a * sign_product ws"
  by (induction ws arbitrary: a) (simp_all add: sign_product_def mult.assoc)









lemma mkRecord_type:
  "cyc_type (mkRecord m cn ws) = (if sign_product ws > 0 then Reinforcing else Balancing)"
  by (simp add: mkRecord_def Let_def foldl_sign_prod)



section \<open>The template\<close>

lemma labelled_edge:
  assumes "sign_labelling E s" and "has_edge E u v w"
  shows "(s u = 1 \<or> s u = - 1) \<and> (s v = 1 \<or> s v = - 1) \<and> sgn w = s u * s v"
proof -
  from assms(2) obtain e where e: "e \<in> set E" "e_from e = u" "e_to e = v" "e_weight e = w"
    unfolding has_edge_iff by blast
  from assms(1) have "\<forall>x \<in> set E. (s (e_from x) = 1 \<or> s (e_from x) = - 1) \<and>
      (s (e_to x) = 1 \<or> s (e_to x) = - 1) \<and> sgn (e_weight x) = s (e_from x) * s (e_to x)"
    by (simp add: sign_labelling_def list_all_iff)
  from bspec[OF this e(1)] show ?thesis by (simp only: e)
qed

lemma sign_product_walk:
  "sign_labelling E s \<Longrightarrow> walk E ns ws \<Longrightarrow> 2 \<le> length ns \<Longrightarrow>
   sign_product ws = s (hd ns) * s (last ns)"
proof (induction E ns ws rule: walk.induct)
  case (1 E ws)
  then show ?case by simp
next
  case (2 E u ws)
  then show ?case by simp
next
  case (3 E u v ns ws)
  note lab = "3.prems"(1)
  from "3.prems"(2) obtain w ws' where ws: "ws = w # ws'" and e: "has_edge E u v w"
    and rest: "walk E (v # ns) ws'"
    by (auto split: list.splits)
  from labelled_edge[OF lab e] have sg: "sgn w = s u * s v" and v: "s v = 1 \<or> s v = - 1"
    by simp_all
  show ?case
  proof (cases ns)
    case Nil
    with rest have "ws' = []" by simp
    then show ?thesis by (simp add: ws sign_product_def sg Nil)
  next
    case (Cons n ns')
    then have "2 \<le> length (v # ns)" by simp
    from "3.IH"[OF ws lab rest this] have "sign_product ws' = s v * s (last (v # ns))" by simp
    then have "sign_product ws = (s u * s v) * (s v * s (last (v # ns)))"
      by (simp add: ws sign_product_def sg)
    also have "\<dots> = s u * (s v * s v) * s (last (v # ns))" by (simp only: mult.assoc)
    also have "s v * s v = 1" using v by auto
    finally show ?thesis by simp
  qed
qed

lemma labelled_reinforcing:
  assumes "sign_labelling E s" and "r \<in> set (detectCycles E)"
  shows "cyc_type r = Reinforcing"
proof -
  from detectCycles_sound[OF assms(2)] have
    cyc: "is_cycle E (cyc_nodes r) (cyc_weights r)" and
    r: "r = cycle_record_of E (cyc_nodes r) (cyc_weights r)"
    by simp_all
  let ?ns = "cyc_nodes r"
  from cyc have ne: "?ns \<noteq> []" and w: "walk E (?ns @ [hd ?ns]) (cyc_weights r)"
    by (simp_all add: is_cycle_def)
  have len: "2 \<le> length (?ns @ [hd ?ns])" using ne by (cases ?ns) simp_all
  from sign_product_walk[OF assms(1) w len] ne
  have p: "sign_product (cyc_weights r) = s (hd ?ns) * s (hd ?ns)" by simp
  have "has_edge E (hd ?ns) ((?ns @ [hd ?ns]) ! Suc 0) (cyc_weights r ! 0)"
    using walk_nth[OF w, where i=0] ne by (simp add: nth_append hd_conv_nth)
  from labelled_edge[OF assms(1) this] have "s (hd ?ns) = 1 \<or> s (hd ?ns) = - 1" by simp
  with p have "sign_product (cyc_weights r) = 1" by auto
  then show ?thesis by (subst r) (simp add: cycle_record_of_def mkRecord_type mkRecord_fields)
qed

lemma template_labelled: "sign_labelling template_edges template_labelling"
  by (simp add: sign_labelling_def template_edges_def template_labelling_def)

lemma template_cycle:
  "is_cycle template_edges [''Isolation'', ''Meaning''] [- (35 / 100), - (45 / 100)]"
  by (simp add: is_cycle_def has_edge_def template_edges_def)

lemma template_loops:
  "detectCycles template_edges \<noteq> [] \<and>
   list_all (\<lambda>c. cyc_type c = Reinforcing) (detectCycles template_edges)"
proof -
  from detectCycles_complete[OF template_cycle] have "detectCycles template_edges \<noteq> []" by auto
  moreover have "list_all (\<lambda>c. cyc_type c = Reinforcing) (detectCycles template_edges)"
    unfolding list_all_iff using labelled_reinforcing[OF template_labelled] by blast
  ultimately show ?thesis by simp
qed

lemma normalize_empty:
  "normalizeVariables S (JObj []) = Inr []" "normalizeEdges S (JObj []) = Inr []"
  by (simp_all add: normalizeVariables_def normalizeEdges_def default_obj_def js_or_def Let_def)

lemma runCausalSimulation_returns:
  assumes "normalizeVariables S graph = Inr vs" and "normalizeEdges S graph = Inr es"
    and "default_obj opts \<noteq> JNull"
  shows "runCausalSimulation S graph opts =
           Inr \<lparr>loopsDetected = detectCycles (normalizedEdges es),
                timeSeries = fst (integration (anchoredVariables S vs opts) (normalizedEdges es) opts),
                newState = deriveFiveFactorState
                  (snd (integration (anchoredVariables S vs opts) (normalizedEdges es) opts))\<rparr>"
  using assms
  by (simp add: runCausalSimulation_def Let_def normalizeVariables_default normalizeEdges_default
        runEulerSimulation_eq default_obj_idem anchoredVariables_def integration_default
        split: prod.splits)

lemma partial_run:
  "map_sum id loopsDetected (runCausalSimulation S partial_graph unit_opts) = Inr []"
  "map_sum id (map fst \<circ> snap_values \<circ> hd \<circ> timeSeries)
     (runCausalSimulation S partial_graph unit_opts)
   = Inr [''Isolation'', ''Belonging'', ''HPA'', ''Inflammation'', ''Neurodegeneration'',
          ''Withdrawal'', ''VagalTone'', ''Meaning'']"
  by code_simp+

lemma partial_edges:
  "normalizeEdges S partial_graph = Inr [\<lparr>e_from = ''A'', e_to = ''B'', e_weight = 1\<rparr>]"
  by code_simp

lemma partial_vars: "normalizeVariables S partial_graph = Inr []"
  by code_simp

section \<open>Keys of cycles\<close>

lemma rotations_rotate: "rotations ns = map (\<lambda>i. rotate i ns) [0..<length ns]"
  unfolding rotations_def by (rule map_cong) (simp_all add: rotate_drop_take)

lemma set_rotations: "ns \<noteq> [] \<Longrightarrow> set (rotations ns) = range (\<lambda>i. rotate i ns)"
proof (intro equalityI subsetI)
  fix x assume "x \<in> set (rotations ns)"
  then show "x \<in> range (\<lambda>i. rotate i ns)" by (auto simp: rotations_rotate)
next
  fix x assume ne: "ns \<noteq> []" and "x \<in> range (\<lambda>i. rotate i ns)"
  then obtain i where x: "x = rotate i ns" by blast
  have "rotate i ns = rotate (i mod length ns) ns" by (rule rotate_conv_mod)
  moreover have "i mod length ns < length ns" using ne by simp
  ultimately show "x \<in> set (rotations ns)" unfolding rotations_rotate x by force
qed

lemma set_rotations_rotate:
  assumes "ns \<noteq> []"
  shows "set (rotations (rotate n ns)) = set (rotations ns)"
proof -
  have ne: "rotate n ns \<noteq> []" using assms by simp
  have "range (\<lambda>i. rotate i (rotate n ns)) = range (\<lambda>i. rotate i ns)"
  proof (intro equalityI subsetI)
    fix x assume "x \<in> range (\<lambda>i. rotate i (rotate n ns))"
    then obtain i where "x = rotate (i + n) ns" by (auto simp: rotate_rotate)
    then show "x \<in> range (\<lambda>i. rotate i ns)" by blast
  next
    fix x assume "x \<in> range (\<lambda>i. rotate i ns)"
    then obtain j where x: "x = rotate j ns" by blast
    have "rotate (j + n * length ns) ns = rotate ((j + n * length ns) mod length ns) ns"
      by (rule rotate_conv_mod)
    also have "\<dots> = rotate (j mod length ns) ns" by simp
    also have "\<dots> = rotate j ns" by (rule rotate_conv_mod[symmetric])
    finally have r: "rotate (j + n * length ns) ns = rotate j ns" .
    have "j + n * (length ns - 1) + n = j + n * length ns"
      using assms by (cases "length ns") simp_all
    then have "x = rotate (j + n * (length ns - 1)) (rotate n ns)"
      by (simp only: x rotate_rotate r)
    then show "x \<in> range (\<lambda>i. rotate i (rotate n ns))" by blast
  qed
  then show ?thesis by (simp only: set_rotations[OF assms] set_rotations[OF ne])
qed

lemma hd_sort_Min:
  fixes xs :: "'a::linorder list"
  assumes "xs \<noteq> []"
  shows "hd (sort xs) = Min (set xs)"
proof -
  have "length (sort xs) = length xs" by simp
  with assms obtain y ys where s: "sort xs = y # ys" by (cases "sort xs") auto
  have "sorted (y # ys)" unfolding s[symmetric] by simp
  then have le: "\<forall>z \<in> set ys. y \<le> z" by simp
  have set: "set xs = insert y (set ys)" using arg_cong[OF s, of set] by simp
  have "Min (set xs) = y"
    by (rule Min_eqI) (use le set in auto)
  then show ?thesis by (simp add: s)
qed

lemma cycle_key_Min:
  assumes "ns \<noteq> []"
  shows "cycle_key ns = Some (join ''->'' (Min (set (rotations ns)) @ [hd (Min (set (rotations ns)))]))"
proof -
  have "rotations ns \<noteq> []" using assms by (simp add: rotations_def)
  from hd_sort_Min[OF this] show ?thesis
    using assms by (simp add: cycle_key_def canonicalizeCycle_def Let_def)
qed

lemma cycle_key_rotate: "ns \<noteq> [] \<Longrightarrow> cycle_key (rotate n ns) = cycle_key ns"
  by (simp add: cycle_key_Min set_rotations_rotate)

lemma two_cycle:
  assumes "a \<noteq> b"
  shows "detectCycles [\<lparr>e_from = a, e_to = b, e_weight = v\<rparr>, \<lparr>e_from = b, e_to = a, e_weight = w\<rparr>]
         = [cycle_record_of [\<lparr>e_from = a, e_to = b, e_weight = v\<rparr>, \<lparr>e_from = b, e_to = a, e_weight = w\<rparr>]
              [a, b] [v, w]]"
  using assms
  by (cases "a < b")
     (auto simp: detectCycles_def Let_def buildAdjacency_def adj_add_def outgoing_def uniq_def
        endpoints_def foundCycle_def canonicalizeCycle_def rotations_def cycle_record_of_def)

lemma two_cycle_type:
  "cyc_type (cycle_record_of E [a, b] [v, w]) = Reinforcing
   \<longleftrightarrow> sgn v = sgn w \<and> v \<noteq> 0 \<and> w \<noteq> 0"
proof -
  have "0 < sgn v * sgn w \<longleftrightarrow> sgn v = sgn w \<and> v \<noteq> 0 \<and> w \<noteq> 0"
    by (cases "v = 0"; cases "w = 0"; cases "0 < v"; cases "0 < w")
       (simp_all add: sgn_if zero_less_mult_iff not_less)
  then show ?thesis
    by (simp add: cycle_record_of_def mkRecord_type sign_product_def)
qed

text \<open>
  What holds of the records in general: no two of them have the same key, the key of a
  cycle does not depend on the node it is read from, and the key of every cycle of the
  edge list belongs to one of them.
\<close>

lemma cycle_records_by_key:
  "distinct (map (\<lambda>r. cycle_key (cyc_nodes r)) (detectCycles E)) \<and>
   (ns \<noteq> [] \<longrightarrow> cycle_key (rotate n ns) = cycle_key ns) \<and>
   (is_cycle E ns ws \<longrightarrow> (\<exists>r \<in> set (detectCycles E). cycle_key (cyc_nodes r) = cycle_key ns))"
  using detectCycles_distinct_keys[of E] cycle_key_rotate[of ns n] detectCycles_complete[of E ns ws]
  by blast

text \<open>
  Claim C1, as amended. The two lists fall back separately: the engine works on the
  normalised variables, or on the 8 template variables when there are none, and on the
  normalised edges, or on the 12 template edges when there are none. For the graph
  description \<^verbatim>\<open>{}\<close> both lists are empty, so the engine runs on exactly the template (it
  returns for all options but \<^verbatim>\<open>null\<close>); the loops it reports are those of the template
  edges, there is at least one, and every one of them is Reinforcing.
\<close>

theorem template_fallback:
  "(runCausalSimulation S graph opts = Inr r \<longrightarrow>
      (\<exists>vs es. normalizeVariables S graph = Inr vs \<and> normalizeEdges S graph = Inr es \<and>
         timeSeries r =
           fst (integration
                  (applyInitialStateAnchors S (if vs = [] then template_variables else vs)
                     (getp (default_obj opts) ''initialState''))
                  (if es = [] then template_edges else es) opts) \<and>
         loopsDetected r = detectCycles (if es = [] then template_edges else es))) \<and>
   length template_variables = 8 \<and> length template_edges = 12 \<and>
   normalizeVariables S (JObj []) = Inr [] \<and> normalizeEdges S (JObj []) = Inr [] \<and>
   (default_obj opts \<noteq> JNull \<longrightarrow>
      (\<exists>r'. runCausalSimulation S (JObj []) opts = Inr r' \<and>
         timeSeries r' =
           fst (integration
                  (applyInitialStateAnchors S template_variables
                     (getp (default_obj opts) ''initialState''))
                  template_edges opts) \<and>
         loopsDetected r' = detectCycles template_edges \<and>
         loopsDetected r' \<noteq> [] \<and>
         list_all (\<lambda>c. cyc_type c = Reinforcing) (loopsDetected r')))"
proof (intro conjI impI)
  assume run: "runCausalSimulation S graph opts = Inr r"
  from runCausalSimulation_Inr[OF run] obtain vs es where
    vs: "normalizeVariables S graph = Inr vs" and es: "normalizeEdges S graph = Inr es" and
    lp: "loopsDetected r = detectCycles (normalizedEdges es)" and
    ts: "timeSeries r = fst (integration (anchoredVariables S vs opts) (normalizedEdges es) opts)"
    by blast
  have v: "normalizedVariables vs = (if vs = [] then template_variables else vs)"
    by (simp add: normalizedVariables_def)
  have e: "normalizedEdges es = (if es = [] then template_edges else es)"
    by (simp add: normalizedEdges_def)
  show "\<exists>vs es. normalizeVariables S graph = Inr vs \<and> normalizeEdges S graph = Inr es \<and>
         timeSeries r =
           fst (integration
                  (applyInitialStateAnchors S (if vs = [] then template_variables else vs)
                     (getp (default_obj opts) ''initialState''))
                  (if es = [] then template_edges else es) opts) \<and>
         loopsDetected r = detectCycles (if es = [] then template_edges else es)"
    using vs es lp ts unfolding anchoredVariables_def v e by blast
next
  show "length template_variables = 8" by (simp add: template_variables_def)
  show "length template_edges = 12" by (simp add: template_edges_def)
  show "normalizeVariables S (JObj []) = Inr []" by (rule normalize_empty)
  show "normalizeEdges S (JObj []) = Inr []" by (rule normalize_empty)
next
  assume opts: "default_obj opts \<noteq> JNull"
  let ?r = "\<lparr>loopsDetected = detectCycles (normalizedEdges []),
            timeSeries = fst (integration (anchoredVariables S [] opts) (normalizedEdges []) opts),
            newState = deriveFiveFactorState
              (snd (integration (anchoredVariables S [] opts) (normalizedEdges []) opts))\<rparr>"
  have run: "runCausalSimulation S (JObj []) opts = Inr ?r"
    using normalize_empty opts by (rule runCausalSimulation_returns)
  have e: "normalizedEdges [] = template_edges" by (simp add: normalizedEdges_def)
  have a: "anchoredVariables S [] opts
           = applyInitialStateAnchors S template_variables (getp (default_obj opts) ''initialState'')"
    by (simp add: anchoredVariables_def normalizedVariables_def)
  show "\<exists>r'. runCausalSimulation S (JObj []) opts = Inr r' \<and>
         timeSeries r' =
           fst (integration
                  (applyInitialStateAnchors S template_variables
                     (getp (default_obj opts) ''initialState''))
                  template_edges opts) \<and>
         loopsDetected r' = detectCycles template_edges \<and>
         loopsDetected r' \<noteq> [] \<and>
         list_all (\<lambda>c. cyc_type c = Reinforcing) (loopsDetected r')"
    using template_loops by (intro exI[of _ ?r] conjI run) (simp_all add: e a)
qed

theorem template_fallback_witness:
  "\<exists>r. runCausalSimulation S_none (JObj []) unit_opts = Inr r \<and>
       default_obj unit_opts \<noteq> JNull \<and>
       loopsDetected r = detectCycles template_edges \<and>
       loopsDetected r \<noteq> [] \<and>
       list_all (\<lambda>c. cyc_type c = Reinforcing) (loopsDetected r)"
proof -
  have n: "default_obj unit_opts \<noteq> JNull" by (simp add: default_obj_def unit_opts_def)
  from template_fallback[of S_none "JObj []" unit_opts] n show ?thesis by blast
qed

text \<open>
  Claim C1 as stated fails twice. With \<^verbatim>\<open>variables: []\<close> and one edge from \<open>A\<close> to \<open>B\<close>
  the normalised variable list is empty and the variables of snapshot 0 are the template's,
  but the edge list is kept: no loop is reported, while the template has loops. And for
  \<^verbatim>\<open>{}\<close> the reported loops are the template's, none of which is Balancing.
\<close>

theorem template_fallback_counterexample:
  "normalizeVariables S_none partial_graph = Inr [] \<and>
   normalizeEdges S_none partial_graph = Inr [\<lparr>e_from = ''A'', e_to = ''B'', e_weight = 1\<rparr>] \<and>
   map_sum id (map fst \<circ> snap_values \<circ> hd \<circ> timeSeries)
     (runCausalSimulation S_none partial_graph unit_opts)
   = Inr [''Isolation'', ''Belonging'', ''HPA'', ''Inflammation'', ''Neurodegeneration'',
          ''Withdrawal'', ''VagalTone'', ''Meaning''] \<and>
   map_sum id loopsDetected (runCausalSimulation S_none partial_graph unit_opts) = Inr [] \<and>
   detectCycles template_edges \<noteq> [] \<and>
   map_sum id loopsDetected (runCausalSimulation S_none (JObj []) unit_opts)
   = Inr (detectCycles template_edges) \<and>
   Balancing \<notin> cyc_type ` set (detectCycles template_edges)"
proof -
  have n: "default_obj unit_opts \<noteq> JNull" by (simp add: default_obj_def unit_opts_def)
  have run: "runCausalSimulation S_none (JObj []) unit_opts =
           Inr \<lparr>loopsDetected = detectCycles (normalizedEdges []),
                timeSeries = fst (integration (anchoredVariables S_none [] unit_opts)
                               (normalizedEdges []) unit_opts),
                newState = deriveFiveFactorState
                  (snd (integration (anchoredVariables S_none [] unit_opts)
                          (normalizedEdges []) unit_opts))\<rparr>"
    using normalize_empty n by (rule runCausalSimulation_returns)
  have 6: "map_sum id loopsDetected (runCausalSimulation S_none (JObj []) unit_opts)
           = Inr (detectCycles template_edges)"
    unfolding run by (simp add: normalizedEdges_def)
  have 7: "Balancing \<notin> cyc_type ` set (detectCycles template_edges)"
    using template_loops by (auto simp: list_all_iff)
  have 5: "detectCycles template_edges \<noteq> []" using template_loops by simp
  show ?thesis
    by (intro conjI partial_vars partial_edges partial_run 5 6 7)
qed

text \<open>
  Claim C6 fails on an edge list whose ids contain the separator of the key. The node
  \<open>a->a\<close> has a self-loop of weight \<open>-1\<close> and forms a 2-cycle with the node \<open>a\<close>, both of
  whose weights are 1. The two cycles have the same key, \<open>a->a->a->a\<close>, so only the first
  one found is recorded: the result is the single Balancing record of the self-loop, and
  the 2-cycle, whose weights have equal signs, has no record.
\<close>

theorem key_collision:
  "is_cycle collision_edges [''a->a'', ''a''] [1, 1] \<and>
   is_cycle collision_edges [''a->a''] [- 1] \<and>
   cycle_key [''a->a'', ''a''] = cycle_key [''a->a''] \<and>
   map cyc_nodes (detectCycles collision_edges) = [[''a->a'']] \<and>
   map cyc_type (detectCycles collision_edges) = [Balancing]"
  by code_simp

end
